theory Spec2Isabelle
  imports Complex_Main "HOL-Library.Word" "HOL-Library.Sublist"
begin

section \<open>The payment server \<open>server.js\<close>: a shallow embedding\<close>

text \<open>
  The server is one JavaScript module of HTTP handlers around a process-wide
  \<open>Map\<close> of sessions. Each handler is modelled as a function from its inputs
  (request body, session store, and the replies of the outside world) to its
  HTTP reply, the new session store and the list of calls it made to its
  collaborators. What the outside world answers is an input of the model:
  the ledger RPC client, the privacy-pool client, the provisioning API, the
  clock and the random generator are not part of the module.

  Conventions.
  \<^item> A call that may throw returns \<open>string + 'a\<close>: \<open>Inl m\<close> is a thrown
    \<open>Error\<close> with message \<open>m\<close>, \<open>Inr v\<close> the returned value. The collaborators
    are library clients that reject with \<open>Error\<close> objects, so every thrown
    value carries a message.
  \<^item> JavaScript numbers that hold amounts and timestamps are modelled as
    \<open>int\<close> (they are integers, exact below \<open>2^53\<close>); the quotient
    \<open>PAYMENT_AMOUNT / 1_000_000\<close> is the double the runtime computes, a
    rational. A configuration whose \<open>PAYMENT_AMOUNT\<close> does not parse
    (\<open>NaN\<close>) is outside the model.
  \<^item> A public key is modelled by its base58 text, so \<open>toString()\<close> and
    \<open>new PublicKey(text)\<close> are the identity.
\<close>

subsection \<open>Strings and numbers of the runtime\<close>

type_synonym byte = "8 word"

type_synonym 'a reply = "string + 'a"

text \<open>\<open>String.prototype.includes\<close>: does \<open>sub\<close> occur in \<open>s\<close> as a contiguous run.\<close>

fun js_includes :: "string \<Rightarrow> string \<Rightarrow> bool" where
  "js_includes [] sub = (sub = [])"
| "js_includes (c # cs) sub = (prefix sub (c # cs) \<or> js_includes cs sub)"

text \<open>\<open>String.prototype.substr(start, length)\<close> for non-negative arguments.\<close>

definition substr :: "nat \<Rightarrow> nat \<Rightarrow> string \<Rightarrow> string" where
  "substr start len s = take len (drop start s)"

definition digit_char :: "nat \<Rightarrow> char" where
  "digit_char d = ''0123456789'' ! d"

fun digits_of :: "nat \<Rightarrow> string" where
  "digits_of n = (if n < 10 then [digit_char n] else digits_of (n div 10) @ [digit_char (n mod 10)])"

declare digits_of.simps [simp del]

text \<open>The decimal text of an integer number, as a template literal renders it.\<close>

definition js_toString :: "int \<Rightarrow> string" where
  "js_toString n = (if n < 0 then CHR ''-'' # digits_of (nat (- n)) else digits_of (nat n))"

subsection \<open>Division of numbers\<close>

text \<open>
  A finite JavaScript number is a rational. \<open>a / b\<close> for two integer
  numbers, \<open>b\<close> not zero, is the double nearest to the exact quotient, ties
  going to the even significand: with \<open>2 ^ e\<close> the power of two at or below
  the quotient, the result is a multiple of \<open>2 ^ (e - 52)\<close>. The handler
  divides by the constant \<open>1_000_000\<close> only, so that neither overflow nor
  subnormal results occur.
\<close>

function binade_up :: "nat \<Rightarrow> nat \<Rightarrow> nat" where
  "binade_up n d = (if d = 0 \<or> n < 2 * d then 0 else Suc (binade_up n (2 * d)))"
  by pat_completeness auto
termination
  by (relation "measure (\<lambda>(n, d). n - d)") auto

function binade_down :: "nat \<Rightarrow> nat \<Rightarrow> nat" where
  "binade_down n d = (if n = 0 \<or> d \<le> n then 0 else Suc (binade_down (2 * n) d))"
  by pat_completeness auto
termination
  by (relation "measure (\<lambda>(n, d). d - n)") auto

declare binade_up.simps [simp del] binade_down.simps [simp del]

text \<open>The exponent \<open>e\<close> with \<open>2 ^ e \<le> n / d < 2 ^ (e + 1)\<close>, for positive \<open>n\<close> and \<open>d\<close>.\<close>

definition binade :: "nat \<Rightarrow> nat \<Rightarrow> int" where
  "binade n d = (if d \<le> n then int (binade_up n d) else - int (binade_down n d))"

definition pow2 :: "int \<Rightarrow> rat" where
  "pow2 k = (if 0 \<le> k then 2 ^ nat k else 1 / 2 ^ nat (- k))"

text \<open>The integer nearest to \<open>n / d\<close> for positive \<open>d\<close>, ties going to the even one.\<close>

definition nearest_even :: "int \<Rightarrow> int \<Rightarrow> int" where
  "nearest_even n d =
     (let f = n div d; r = n mod d
      in if 2 * r < d then f
         else if d < 2 * r then f + 1
         else if even f then f else f + 1)"

definition js_divide :: "int \<Rightarrow> int \<Rightarrow> rat" where
  "js_divide a b =
     (if a = 0 \<or> b = 0 then 0
      else
        (let n = \<bar>a\<bar>; d = \<bar>b\<bar>; e = binade (nat n) (nat d);
             m = (if e \<le> 52 then nearest_even (n * 2 ^ nat (52 - e)) d
                  else nearest_even n (d * 2 ^ nat (e - 52)))
         in of_int (sgn a * sgn b * m) * pow2 (e - 52)))"

subsection \<open>Configuration\<close>

record config =
  RPC_URL :: string
  PAYMENT_WALLET :: "string option"
  PAYMENT_AMOUNT :: int
  DVPN_API_URL :: string
  DVPN_APP_TOKEN :: "string option"
  DESKTOP_SCHEME :: string

type_synonym pubkey = string

definition USDC_MINT :: pubkey where
  "USDC_MINT = ''EPjFWdd5AufqSSqeM2qN1xzybapC8G4wEGGkZwyTDt1v''"

text \<open>The two program identifiers are constants of the token library.\<close>

definition TOKEN_PROGRAM_ID :: pubkey where
  "TOKEN_PROGRAM_ID = ''TokenkegQfeZyiNwAJbNbGKPFXCWuBvf9Ss623VQ5DA''"

definition ASSOCIATED_TOKEN_PROGRAM_ID :: pubkey where
  "ASSOCIATED_TOKEN_PROGRAM_ID = ''ATokenGPvbdGVxr1b2hvZbsiqW5xWH25efTNsLJA8knL''"

subsection \<open>The session store\<close>

record keypair =
  publicKey :: pubkey
  secretKey :: "byte list"

record session =
  burnerKeypair :: keypair
  burnerPublicKey :: string
  burnerATA :: string
  burnerPrivateKeyBase58 :: string
  createdAt :: int
  expiresAt :: int

text \<open>
  \<open>sessions\<close> is a JavaScript \<open>Map\<close>: entries are kept in insertion order,
  \<open>set\<close> on a key that is present replaces the value in place and otherwise
  appends, \<open>delete\<close> removes the entry, \<open>get\<close> returns \<open>undefined\<close> (\<open>None\<close>)
  for a key that is absent.
\<close>

type_synonym store = "(string \<times> session) list"

definition sessions_get :: "store \<Rightarrow> string \<Rightarrow> session option" where
  "sessions_get sessions k = map_of sessions k"

fun sessions_set :: "string \<Rightarrow> session \<Rightarrow> store \<Rightarrow> store" where
  "sessions_set k v [] = [(k, v)]"
| "sessions_set k v (p # ps) = (if fst p = k then (k, v) # ps else p # sessions_set k v ps)"

definition sessions_delete :: "string \<Rightarrow> store \<Rightarrow> store" where
  "sessions_delete k sessions = filter (\<lambda>p. fst p \<noteq> k) sessions"

subsection \<open>\<open>POST /api/create-session\<close>\<close>

text \<open>
  The libraries the handler calls: the derivation of the associated token
  account (which may throw) and the base58 encoder.
\<close>

record lib =
  getAssociatedTokenAddress :: "pubkey \<Rightarrow> pubkey \<Rightarrow> bool \<Rightarrow> pubkey \<Rightarrow> pubkey \<Rightarrow> pubkey reply"
  bs58_encode :: "byte list \<Rightarrow> string"

text \<open>
  The handler reads the clock several times. \<open>now k\<close> is what the \<open>k\<close>-th call of
  \<open>Date.now()\<close> in the request returns: call 0 is in the session id, call 1
  is \<open>createdAt\<close>, call 2 is in \<open>expiresAt\<close>, and the clean-up loop makes one
  call for each entry it visits.
\<close>

type_synonym clock = "nat \<Rightarrow> int"

definition new_session :: "lib \<Rightarrow> keypair \<Rightarrow> pubkey \<Rightarrow> clock \<Rightarrow> session" where
  "new_session L burner ata now =
     \<lparr> burnerKeypair = burner,
       burnerPublicKey = publicKey burner,
       burnerATA = ata,
       burnerPrivateKeyBase58 = bs58_encode L (secretKey burner),
       createdAt = now 1,
       expiresAt = now 2 + 15 * 60 * 1000 \<rparr>"

text \<open>The clean-up loop: entry number \<open>k\<close> is removed when the clock read at it is past its expiry.\<close>

fun cleanup :: "clock \<Rightarrow> nat \<Rightarrow> store \<Rightarrow> store" where
  "cleanup now k [] = []"
| "cleanup now k (p # ps) =
     (if now k > expiresAt (snd p) then cleanup now (Suc k) ps
      else p # cleanup now (Suc k) ps)"

definition new_session_id :: "clock \<Rightarrow> string \<Rightarrow> string" where
  "new_session_id now random36 = ''session_'' @ js_toString (now 0) @ ''_'' @ substr 2 9 random36"

datatype create_body =
    Created (sessionId: string) (burnerAddress: string) (burnerATA_sent: string) (usdcAmount: int)
  | CreateFailed string

text \<open>
  \<open>burner\<close> is the key pair \<open>Keypair.generate()\<close> returned and \<open>random36\<close> the
  text \<open>Math.random().toString(36)\<close>. The reply's fields in human units and
  the native-currency amounts are left out. The result is the HTTP status,
  the body and the store after the request.
\<close>

definition create_session ::
  "lib \<Rightarrow> config \<Rightarrow> keypair \<Rightarrow> string \<Rightarrow> clock \<Rightarrow> store \<Rightarrow> (nat \<times> create_body) \<times> store" where
  "create_session L cfg burner random36 now sessions =
     (case getAssociatedTokenAddress L USDC_MINT (publicKey burner) False
             TOKEN_PROGRAM_ID ASSOCIATED_TOKEN_PROGRAM_ID of
        Inl m \<Rightarrow> ((500, CreateFailed m), sessions)
      | Inr ata \<Rightarrow>
          (let sid = new_session_id now random36;
               sessions1 = sessions_set sid (new_session L burner ata now) sessions;
               sessions2 = cleanup now 3 sessions1
           in ((200, Created sid (publicKey burner) ata (PAYMENT_AMOUNT cfg)), sessions2)))"

subsection \<open>\<open>POST /api/execute-privacy-transaction\<close>: the outside world\<close>

datatype commitment = Processed | Confirmed | Finalized

text \<open>
  The \<open>value\<close> of a signature-status reply: its confirmation level, when it has
  one, and the on-chain error attached to it (\<open>None\<close> is \<open>null\<close>).
\<close>

record signature_status =
  confirmationStatus :: "commitment option"
  err :: "string option"

text \<open>
  The test \<open>status.value.err\<close> of the handler: an error is there when \<open>err\<close> is
  neither \<open>null\<close> nor the empty string.
\<close>

definition has_err :: "signature_status \<Rightarrow> bool" where
  "has_err v = (case err v of None \<Rightarrow> False | Some e \<Rightarrow> e \<noteq> [])"

record device_data =
  token :: "string option"
  device_id :: "string option"

record device_response =
  ok :: bool
  body_text :: "string reply"
  body_json :: "device_data reply"

text \<open>
  What the collaborators answer during one request. The two polled queries
  are indexed by the attempt number; \<open>getTokenAccountBalance\<close> gives the
  number \<open>parseInt(accountInfo.value.amount)\<close>, or the error thrown on the
  way to it. The pool operations give the settlement signature.
\<close>

record world =
  getSignatureStatus :: "nat \<Rightarrow> signature_status option reply"
  getTokenAccountBalance :: "nat \<Rightarrow> int reply"
  newPrivacyCash :: "unit reply"
  depositSPL :: "string reply"
  withdrawSPL :: "string reply"
  fetchDevice :: "device_response reply"

text \<open>The calls a handler makes, with their arguments, in the order it makes them.\<close>

datatype call =
    GetSignatureStatus string
  | Delay nat
  | GetTokenAccountBalance pubkey
  | NewPrivacyCash string string
  | DepositSPL rat pubkey
  | WithdrawSPL pubkey rat "string option"
  | FetchDevice string "string option"
  | SendRawTransaction "byte list"

type_synonym 'a stage = "'a reply \<times> call list"

text \<open>Sequencing inside the handler's \<open>try\<close> block: a thrown error skips what follows.\<close>

definition then_stage :: "'a stage \<Rightarrow> ('a \<Rightarrow> 'b stage) \<Rightarrow> 'b stage" where
  "then_stage m f =
     (case m of
        (Inl e, cs) \<Rightarrow> (Inl e, cs)
      | (Inr x, cs) \<Rightarrow> (case f x of (r, cs') \<Rightarrow> (r, cs @ cs')))"

subsection \<open>Waiting for the funding transaction\<close>

datatype loop_step = Break | Continue | Throw string

text \<open>
  The \<open>try\<close> block of one attempt: \<open>Inr True\<close> when it sets \<open>confirmed\<close> and
  breaks, \<open>Inr False\<close> when it falls through, \<open>Inl m\<close> when the query or the
  block itself throws.
\<close>

definition funding_try :: "signature_status option reply \<Rightarrow> bool reply" where
  "funding_try r =
     (case r of
        Inl m \<Rightarrow> Inl m
      | Inr None \<Rightarrow> Inr False
      | Inr (Some v) \<Rightarrow>
          (if confirmationStatus v = Some Confirmed \<or> confirmationStatus v = Some Finalized
           then (if \<not> has_err v then Inr True
                 else Inl ''Funding transaction failed on-chain'')
           else Inr False))"

text \<open>The attempt with its \<open>catch\<close> clause.\<close>

definition funding_attempt :: "signature_status option reply \<Rightarrow> loop_step" where
  "funding_attempt r =
     (case funding_try r of
        Inl m \<Rightarrow> (if js_includes m ''failed on-chain'' then Throw m else Continue)
      | Inr brk \<Rightarrow> (if brk then Break else Continue))"

text \<open>The loop from \<open>attempt\<close> on: the final value of \<open>confirmed\<close>, or the error thrown.\<close>

function funding_loop :: "world \<Rightarrow> string \<Rightarrow> nat \<Rightarrow> bool stage" where
  "funding_loop W sg attempt =
     (if attempt < 30 then
        (case funding_attempt (getSignatureStatus W attempt) of
           Break \<Rightarrow> (Inr True, [GetSignatureStatus sg])
         | Throw m \<Rightarrow> (Inl m, [GetSignatureStatus sg])
         | Continue \<Rightarrow>
             (case funding_loop W sg (Suc attempt) of
                (r, cs) \<Rightarrow> (r, GetSignatureStatus sg # Delay 1000 # cs)))
      else (Inr False, []))"
  by pat_completeness auto
termination
  by (relation "measure (\<lambda>(W, sg, attempt). 30 - attempt)") auto

declare funding_loop.simps [simp del]

definition wait_for_funding :: "world \<Rightarrow> string \<Rightarrow> unit stage" where
  "wait_for_funding W sg =
     (case funding_loop W sg 0 of
        (Inl m, cs) \<Rightarrow> (Inl m, cs)
      | (Inr confirmed, cs) \<Rightarrow>
          (if \<not> confirmed
           then (Inl ''Funding transaction did not confirm within 30 seconds'', cs)
           else (Inr (), cs)))"

subsection \<open>Verifying the burner's balance\<close>

text \<open>The loop from \<open>attempt\<close> on, with the current \<open>usdcBalance\<close>: its final value.\<close>

function balance_loop :: "world \<Rightarrow> config \<Rightarrow> pubkey \<Rightarrow> nat \<Rightarrow> int \<Rightarrow> int \<times> call list" where
  "balance_loop W cfg ata attempt usdcBalance =
     (if attempt < 10 then
        (case getTokenAccountBalance W attempt of
           Inr amount \<Rightarrow>
             (if amount \<ge> PAYMENT_AMOUNT cfg then (amount, [GetTokenAccountBalance ata])
              else (case balance_loop W cfg ata (Suc attempt) amount of
                      (b, cs) \<Rightarrow> (b, GetTokenAccountBalance ata # Delay 2000 # cs)))
         | Inl e \<Rightarrow>
             (case balance_loop W cfg ata (Suc attempt) usdcBalance of
                (b, cs) \<Rightarrow> (b, GetTokenAccountBalance ata # Delay 2000 # cs)))
      else (usdcBalance, []))"
  by pat_completeness auto
termination
  by (relation "measure (\<lambda>(W, cfg, ata, attempt, usdcBalance). 10 - attempt)") auto

declare balance_loop.simps [simp del]

definition insufficient :: "int \<Rightarrow> int \<Rightarrow> string" where
  "insufficient have need =
     ''Insufficient USDC. Have: '' @ js_toString have @ '', Need: '' @ js_toString need"

definition verify_balance :: "world \<Rightarrow> config \<Rightarrow> pubkey \<Rightarrow> unit stage" where
  "verify_balance W cfg ata =
     (case balance_loop W cfg ata 0 0 of
        (usdcBalance, cs) \<Rightarrow>
          (if usdcBalance < PAYMENT_AMOUNT cfg
           then (Inl (insufficient usdcBalance (PAYMENT_AMOUNT cfg)), cs)
           else (Inr (), cs)))"

subsection \<open>The privacy relay and the activation\<close>

text \<open>The number \<open>PAYMENT_AMOUNT / 1_000_000\<close> that both pool operations are given.\<close>

definition pool_amount :: "config \<Rightarrow> rat" where
  "pool_amount cfg = js_divide (PAYMENT_AMOUNT cfg) 1000000"

text \<open>Client construction, deposit, settling delay, withdrawal: the withdrawal's signature.\<close>

definition privacy_relay :: "config \<Rightarrow> world \<Rightarrow> session \<Rightarrow> string stage" where
  "privacy_relay cfg W s =
     then_stage (newPrivacyCash W, [NewPrivacyCash (RPC_URL cfg) (burnerPrivateKeyBase58 s)]) (\<lambda>client.
     then_stage (depositSPL W, [DepositSPL (pool_amount cfg) USDC_MINT]) (\<lambda>depositResult.
     then_stage (Inr (), [Delay 3000]) (\<lambda>u.
     then_stage (withdrawSPL W, [WithdrawSPL USDC_MINT (pool_amount cfg) (PAYMENT_WALLET cfg)])
       (\<lambda>withdrawResult. (Inr withdrawResult, [])))))"

text \<open>The device id, the device token and the deep link.\<close>

definition issue_activation :: "config \<Rightarrow> world \<Rightarrow> (string option \<times> string \<times> string) stage" where
  "issue_activation cfg W =
     (case fetchDevice W of
        Inl m \<Rightarrow> Inl m
      | Inr deviceResponse \<Rightarrow>
          (if \<not> ok deviceResponse then
             (case body_text deviceResponse of
                Inl m \<Rightarrow> Inl m
              | Inr e \<Rightarrow> Inl ''Failed to create device'')
           else
             (case body_json deviceResponse of
                Inl m \<Rightarrow> Inl m
              | Inr deviceData \<Rightarrow>
                  (case token deviceData of
                     None \<Rightarrow> Inl ''No device token received''
                   | Some deviceToken \<Rightarrow>
                       (if deviceToken = [] then Inl ''No device token received''
                        else Inr (device_id deviceData, deviceToken,
                                  DESKTOP_SCHEME cfg @ ''://activate?token='' @ deviceToken))))),
      [FetchDevice (DVPN_API_URL cfg @ ''/device'') (DVPN_APP_TOKEN cfg)])"

subsection \<open>The orchestrating handler\<close>

record exec_request =
  req_sessionId :: "string option"
  fundingTxSignature :: "string option"

datatype exec_body =
    Activated (device_id_sent: "string option") (device_token: string) (deep_link: string)
      (withdrawal_tx: string)
  | ExecFailed string

record exec_result =
  http_status :: nat
  reply_body :: exec_body
  calls :: "call list"
  sessions_after :: store

text \<open>The waiter runs only for a funding signature that is present and not empty.\<close>

definition funding_stage :: "world \<Rightarrow> string option \<Rightarrow> unit stage" where
  "funding_stage W sg =
     (case sg of
        None \<Rightarrow> (Inr (), [])
      | Some s \<Rightarrow> (if s \<noteq> [] then wait_for_funding W s else (Inr (), [])))"

text \<open>What the \<open>try\<close> block does once the session is resolved, up to the deep link.\<close>

definition pipeline :: "config \<Rightarrow> world \<Rightarrow> session \<Rightarrow> string option \<Rightarrow> exec_body stage" where
  "pipeline cfg W s sg =
     then_stage (funding_stage W sg) (\<lambda>u.
     then_stage (verify_balance W cfg (burnerATA s)) (\<lambda>u.
     then_stage (privacy_relay cfg W s) (\<lambda>withdraw_signature.
     then_stage (issue_activation cfg W) (\<lambda>(deviceId, deviceToken, deepLink).
       (Inr (Activated deviceId deviceToken deepLink withdraw_signature), [])))))"

definition execute_privacy_transaction ::
  "config \<Rightarrow> world \<Rightarrow> exec_request \<Rightarrow> store \<Rightarrow> exec_result" where
  "execute_privacy_transaction cfg W req sessions =
     (case req_sessionId req of
        None \<Rightarrow>
          \<lparr> http_status = 400, reply_body = ExecFailed ''sessionId is required'',
            calls = [], sessions_after = sessions \<rparr>
      | Some sid \<Rightarrow>
          (if sid = [] then
             \<lparr> http_status = 400, reply_body = ExecFailed ''sessionId is required'',
               calls = [], sessions_after = sessions \<rparr>
           else
             (case sessions_get sessions sid of
                None \<Rightarrow>
                  \<lparr> http_status = 400, reply_body = ExecFailed ''Invalid or expired session'',
                    calls = [], sessions_after = sessions \<rparr>
              | Some s \<Rightarrow>
                  (case pipeline cfg W s (fundingTxSignature req) of
                     (Inl m, cs) \<Rightarrow>
                       \<lparr> http_status = 500, reply_body = ExecFailed m,
                         calls = cs, sessions_after = sessions \<rparr>
                   | (Inr b, cs) \<Rightarrow>
                       \<lparr> http_status = 200, reply_body = b,
                         calls = cs, sessions_after = sessions_delete sid sessions \<rparr>))))"

subsection \<open>\<open>POST /api/send-transaction\<close>\<close>

text \<open>
  The \<open>signedTransaction\<close> field of the parsed JSON body. Array elements and
  object values are integer numbers; an object's keys are array indices
  (\<open>"0"\<close>, \<open>"1"\<close>, ...) or other names, in the order they were inserted.
\<close>

datatype prop_key = Index nat | Name string

datatype json =
    JUndefined
  | JNull
  | JBool bool
  | JNum int
  | JStr string
  | JArr "int list"
  | JObj "(prop_key \<times> int) list"

fun js_truthy :: "json \<Rightarrow> bool" where
  "js_truthy JUndefined = False"
| "js_truthy JNull = False"
| "js_truthy (JBool b) = b"
| "js_truthy (JNum n) = (n \<noteq> 0)"
| "js_truthy (JStr s) = (s \<noteq> [])"
| "js_truthy (JArr xs) = True"
| "js_truthy (JObj ps) = True"

text \<open>
  \<open>Object.values\<close> lists the values of the index keys in ascending order,
  then those of the other keys in insertion order.
\<close>

definition object_values :: "(prop_key \<times> 'a) list \<Rightarrow> 'a list" where
  "object_values ps =
     map snd (sort_key fst
       (List.map_filter (\<lambda>(k, v). case k of Index i \<Rightarrow> Some (i, v) | Name n \<Rightarrow> None) ps))
     @ List.map_filter (\<lambda>(k, v). case k of Index i \<Rightarrow> None | Name n \<Rightarrow> Some v) ps"

text \<open>\<open>Buffer.from(array)\<close> keeps the low eight bits of each entry.\<close>

definition buffer_from_array :: "int list \<Rightarrow> byte list" where
  "buffer_from_array xs = map word_of_int xs"

text \<open>
  \<open>Buffer.from(text, 'base64')\<close> of the runtime, after its documented
  behaviour: both the standard and the URL-safe alphabet are read, characters
  outside them are skipped, decoding stops at the first \<open>=\<close>, and a byte is
  produced as soon as its eight bits are there.
\<close>

definition b64_alphabet :: string where
  "b64_alphabet = ''ABCDEFGHIJKLMNOPQRSTUVWXYZabcdefghijklmnopqrstuvwxyz0123456789+/''"

fun index_of :: "char \<Rightarrow> string \<Rightarrow> nat option" where
  "index_of c [] = None"
| "index_of c (x # xs) = (if x = c then Some 0 else map_option Suc (index_of c xs))"

definition unbase64 :: "char \<Rightarrow> nat option" where
  "unbase64 c =
     (if c = CHR ''-'' then Some 62
      else if c = CHR ''_'' then Some 63
      else index_of c b64_alphabet)"

fun b64_sextets :: "string \<Rightarrow> nat list" where
  "b64_sextets [] = []"
| "b64_sextets (c # cs) =
     (case unbase64 c of
        Some v \<Rightarrow> v # b64_sextets cs
      | None \<Rightarrow> (if c = CHR ''='' then [] else b64_sextets cs))"

fun b64_bytes :: "nat list \<Rightarrow> byte list" where
  "b64_bytes (a # b # c # d # vs) =
     [of_nat (a * 4 + b div 16), of_nat (b mod 16 * 16 + c div 4), of_nat (c mod 4 * 64 + d)]
     @ b64_bytes vs"
| "b64_bytes [a, b, c] = [of_nat (a * 4 + b div 16), of_nat (b mod 16 * 16 + c div 4)]"
| "b64_bytes [a, b] = [of_nat (a * 4 + b div 16)]"
| "b64_bytes [a] = []"
| "b64_bytes [] = []"

definition buffer_from_base64 :: "string \<Rightarrow> byte list" where
  "buffer_from_base64 s = b64_bytes (b64_sextets s)"

text \<open>The normalisation of the handler: array, string, anything else.\<close>

definition tx_buffer :: "json \<Rightarrow> byte list" where
  "tx_buffer signedTransaction =
     (case signedTransaction of
        JArr xs \<Rightarrow> buffer_from_array xs
      | JStr s \<Rightarrow> buffer_from_base64 s
      | JObj ps \<Rightarrow> buffer_from_array (object_values ps)
      | _ \<Rightarrow> buffer_from_array [])"

datatype send_body = Sent string | SendFailed string

text \<open>\<open>sendRaw\<close> is the ledger's answer to a submission: a signature, or an error.\<close>

definition send_transaction ::
  "(byte list \<Rightarrow> string reply) \<Rightarrow> json \<Rightarrow> (nat \<times> send_body) \<times> call list" where
  "send_transaction sendRaw signedTransaction =
     (if \<not> js_truthy signedTransaction
      then ((400, SendFailed ''signedTransaction required''), [])
      else
        (let txBuffer = tx_buffer signedTransaction
         in (case sendRaw txBuffer of
               Inl m \<Rightarrow> ((500, SendFailed m), [SendRawTransaction txBuffer])
             | Inr signature \<Rightarrow> ((200, Sent signature), [SendRawTransaction txBuffer]))))"

subsection \<open>The three encodings of a byte sequence\<close>

text \<open>
  What a client sends for the bytes \<open>bs\<close>: the array of their values, their
  base64 text (RFC 4648, padded), or the object that maps each position to
  the byte there.
\<close>

definition b64_char :: "nat \<Rightarrow> char" where
  "b64_char n = b64_alphabet ! n"

fun b64_encode :: "byte list \<Rightarrow> string" where
  "b64_encode (x # y # z # bs) =
     [b64_char (unat x div 4), b64_char (unat x mod 4 * 16 + unat y div 16),
      b64_char (unat y mod 16 * 4 + unat z div 64), b64_char (unat z mod 64)]
     @ b64_encode bs"
| "b64_encode [x, y] =
     [b64_char (unat x div 4), b64_char (unat x mod 4 * 16 + unat y div 16),
      b64_char (unat y mod 16 * 4), CHR ''='']"
| "b64_encode [x] = [b64_char (unat x div 4), b64_char (unat x mod 4 * 16), CHR ''='', CHR ''='']"
| "b64_encode [] = []"

definition as_array :: "byte list \<Rightarrow> json" where
  "as_array bs = JArr (map uint bs)"

definition as_base64 :: "byte list \<Rightarrow> json" where
  "as_base64 bs = JStr (b64_encode bs)"

definition as_object :: "byte list \<Rightarrow> json" where
  "as_object bs = JObj (map (\<lambda>(i, b). (Index i, uint b)) (enumerate 0 bs))"

subsection \<open>Reading decimal text back\<close>

definition digit_value :: "char \<Rightarrow> nat" where
  "digit_value c = (case index_of c ''0123456789'' of Some d \<Rightarrow> d | None \<Rightarrow> 0)"

definition digits_value :: "string \<Rightarrow> nat" where
  "digits_value cs = foldl (\<lambda>acc c. 10 * acc + digit_value c) 0 cs"

subsection \<open>Reading the call list\<close>

fun deposit_amounts :: "call list \<Rightarrow> rat list" where
  "deposit_amounts [] = []"
| "deposit_amounts (DepositSPL a m # cs) = a # deposit_amounts cs"
| "deposit_amounts (c # cs) = deposit_amounts cs"

fun withdraw_amounts :: "call list \<Rightarrow> rat list" where
  "withdraw_amounts [] = []"
| "withdraw_amounts (WithdrawSPL m a w # cs) = a # withdraw_amounts cs"
| "withdraw_amounts (c # cs) = withdraw_amounts cs"

fun status_polls :: "call list \<Rightarrow> nat" where
  "status_polls [] = 0"
| "status_polls (GetSignatureStatus sg # cs) = Suc (status_polls cs)"
| "status_polls (c # cs) = status_polls cs"

fun balance_polls :: "call list \<Rightarrow> nat" where
  "balance_polls [] = 0"
| "balance_polls (GetTokenAccountBalance a # cs) = Suc (balance_polls cs)"
| "balance_polls (c # cs) = balance_polls cs"

text \<open>
  The value of \<open>usdcBalance\<close> after the attempts \<open>0 .. k - 1\<close> of a loop that
  has not stopped: what the most recent successful query returned, and 0 when
  there was none.
\<close>

fun observed_after :: "world \<Rightarrow> nat \<Rightarrow> int" where
  "observed_after W 0 = 0"
| "observed_after W (Suc k) =
     (case getTokenAccountBalance W k of
        Inr amount \<Rightarrow> amount
      | Inl e \<Rightarrow> observed_after W k)"

subsection \<open>Requests one after the other\<close>

definition succeeded :: "'a reply \<Rightarrow> bool" where
  "succeeded r = (case r of Inl m \<Rightarrow> False | Inr v \<Rightarrow> True)"

text \<open>
  The two requests that touch the store, each with what the outside world
  answers during it, and the store a sequence of them leaves, when they are
  handled one after the other.
\<close>

datatype request =
    CreateSession keypair string clock
  | ExecutePrivacyTransaction world exec_request

fun handle :: "lib \<Rightarrow> config \<Rightarrow> request \<Rightarrow> store \<Rightarrow> store" where
  "handle L cfg (CreateSession burner random36 now) sessions =
     snd (create_session L cfg burner random36 now sessions)"
| "handle L cfg (ExecutePrivacyTransaction W req) sessions =
     sessions_after (execute_privacy_transaction cfg W req sessions)"

fun serve :: "lib \<Rightarrow> config \<Rightarrow> request list \<Rightarrow> store \<Rightarrow> store" where
  "serve L cfg [] sessions = sessions"
| "serve L cfg (r # rs) sessions = serve L cfg rs (handle L cfg r sessions)"

text \<open>The request is a session creation that succeeds and stores the record \<open>s\<close> under the id \<open>k\<close>.\<close>

fun stores :: "lib \<Rightarrow> request \<Rightarrow> string \<Rightarrow> session \<Rightarrow> bool" where
  "stores L (CreateSession burner random36 now) k s =
     (case getAssociatedTokenAddress L USDC_MINT (publicKey burner) False
             TOKEN_PROGRAM_ID ASSOCIATED_TOKEN_PROGRAM_ID of
        Inl m \<Rightarrow> False
      | Inr ata \<Rightarrow> k = new_session_id now random36 \<and> s = new_session L burner ata now)"
| "stores L (ExecutePrivacyTransaction W req) k s = False"

subsection \<open>Concrete inputs\<close>

text \<open>A library, a configuration (the defaults of the module), a key pair and two clocks.\<close>

definition lib0 :: lib where
  "lib0 = \<lparr> getAssociatedTokenAddress = (\<lambda>mint owner offCurve p q. Inr (''ata-of-'' @ owner)),
            bs58_encode = (\<lambda>bs. ''base58-secret'') \<rparr>"

definition cfg0 :: config where
  "cfg0 = \<lparr> RPC_URL = ''https://api.mainnet-beta.solana.com'',
            PAYMENT_WALLET = Some ''operator-wallet'',
            PAYMENT_AMOUNT = 1000000,
            DVPN_API_URL = ''https://api.dvpnsdk.com'',
            DVPN_APP_TOKEN = Some ''app-token'',
            DESKTOP_SCHEME = ''exidvpn'' \<rparr>"

text \<open>The same configuration with a payment amount of 123 minor units.\<close>

definition cfg_odd :: config where
  "cfg_odd = cfg0 \<lparr> PAYMENT_AMOUNT := 123 \<rparr>"

definition burner0 :: keypair where
  "burner0 = \<lparr> publicKey = ''burner-key'', secretKey = [1, 2, 3] \<rparr>"

text \<open>Another key pair.\<close>

definition burner1 :: keypair where
  "burner1 = \<lparr> publicKey = ''other-key'', secretKey = [4, 5, 6] \<rparr>"

definition random0 :: string where
  "random0 = ''0.4fzyo82mvyr''"

text \<open>A clock that stands still during the request, and one that advances between reads.\<close>

definition steady_clock :: clock where
  "steady_clock k = 1000"

definition ticking_clock :: clock where
  "ticking_clock k = 1000 + int k"

definition sid0 :: string where
  "sid0 = ''session_1000_4fzyo82mv''"

definition session0 :: session where
  "session0 =
     \<lparr> burnerKeypair = burner0,
       burnerPublicKey = ''burner-key'',
       burnerATA = ''ata-of-burner-key'',
       burnerPrivateKeyBase58 = ''base58-secret'',
       createdAt = 1000,
       expiresAt = 901000 \<rparr>"

definition store0 :: store where
  "store0 = [(sid0, session0)]"

text \<open>A later request, long after \<open>session0\<close> has expired.\<close>

definition random1 :: string where
  "random1 = ''0.k3x9q0a7zzw''"

definition late_clock :: clock where
  "late_clock k = 5000000"

text \<open>A world in which every collaborator answers well at once.\<close>

definition world_ok :: world where
  "world_ok =
     \<lparr> getSignatureStatus =
         (\<lambda>attempt. Inr (Some \<lparr> confirmationStatus = Some Confirmed, err = None \<rparr>)),
       getTokenAccountBalance = (\<lambda>attempt. Inr 1000000),
       newPrivacyCash = Inr (),
       depositSPL = Inr ''deposit-signature'',
       withdrawSPL = Inr ''withdraw-signature'',
       fetchDevice =
         Inr \<lparr> ok = True, body_text = Inr ''{}'',
               body_json = Inr \<lparr> token = Some ''device-token'',
                                  device_id = Some ''device-1'' \<rparr> \<rparr> \<rparr>"

text \<open>The same world, but the provisioning API answers with a non-success status.\<close>

definition world_provision_down :: world where
  "world_provision_down =
     world_ok \<lparr> fetchDevice :=
       Inr \<lparr> ok = False, body_text = Inr ''Service Unavailable'',
             body_json = Inl ''Unexpected token S in JSON'' \<rparr> \<rparr>"

definition req0 :: exec_request where
  "req0 = \<lparr> req_sessionId = Some sid0, fundingTxSignature = None \<rparr>"

subsection \<open>Reading the replies of the world\<close>

text \<open>The balance query of attempt \<open>k\<close> returns an amount that meets the requirement.\<close>

definition meets :: "world \<Rightarrow> config \<Rightarrow> nat \<Rightarrow> bool" where
  "meets W cfg k =
     (case getTokenAccountBalance W k of
        Inr amount \<Rightarrow> PAYMENT_AMOUNT cfg \<le> amount
      | Inl e \<Rightarrow> False)"

text \<open>A status at a level the waiter acts on.\<close>

definition settled :: "signature_status \<Rightarrow> bool" where
  "settled v = (confirmationStatus v = Some Confirmed \<or> confirmationStatus v = Some Finalized)"

subsection \<open>Worlds for the balance verifier\<close>

text \<open>The balance is 500000 at every attempt.\<close>

definition world_half :: world where
  "world_half = world_ok \<lparr> getTokenAccountBalance := (\<lambda>attempt. Inr 500000) \<rparr>"

text \<open>The balance is short, then the query fails, then the balance is there.\<close>

definition world_third_try :: world where
  "world_third_try =
     world_ok \<lparr> getTokenAccountBalance :=
       (\<lambda>attempt. if attempt = 0 then Inr 250000
                  else if attempt = 1 then Inl ''fetch failed''
                  else Inr 1000000) \<rparr>"

text \<open>A configuration that requires 2500000 minor units.\<close>

definition cfg_high :: config where
  "cfg_high = cfg0 \<lparr> PAYMENT_AMOUNT := 2500000 \<rparr>"

text \<open>Every balance query fails.\<close>

definition world_rpc_down :: world where
  "world_rpc_down = world_ok \<lparr> getTokenAccountBalance := (\<lambda>attempt. Inl ''fetch failed'') \<rparr>"

text \<open>Only the fourth balance query succeeds, and the balance is short.\<close>

definition world_stale :: world where
  "world_stale =
     world_ok \<lparr> getTokenAccountBalance :=
       (\<lambda>attempt. if attempt = 3 then Inr 500000 else Inl ''fetch failed'') \<rparr>"

subsection \<open>Worlds for the confirmation waiter\<close>

text \<open>The transaction is not visible at first, then finalized with an on-chain error.\<close>

definition world_failed_tx :: world where
  "world_failed_tx =
     world_ok \<lparr> getSignatureStatus :=
       (\<lambda>attempt. if attempt = 0 then Inr None
                  else Inr (Some \<lparr> confirmationStatus = Some Finalized,
                                   err = Some ''InstructionError'' \<rparr>)) \<rparr>"

text \<open>Every poll sees the transaction processed, with an error attached.\<close>

definition world_processed_err :: world where
  "world_processed_err =
     world_ok \<lparr> getSignatureStatus :=
       (\<lambda>attempt. Inr (Some \<lparr> confirmationStatus = Some Processed,
                               err = Some ''AccountInUse'' \<rparr>)) \<rparr>"

text \<open>The first poll sees the transaction processed with an error, the next ones confirmed without.\<close>

definition world_fork :: world where
  "world_fork =
     world_ok \<lparr> getSignatureStatus :=
       (\<lambda>attempt. if attempt = 0
                  then Inr (Some \<lparr> confirmationStatus = Some Processed,
                                    err = Some ''AccountInUse'' \<rparr>)
                  else Inr (Some \<lparr> confirmationStatus = Some Confirmed, err = None \<rparr>)) \<rparr>"

text \<open>The second status query throws an error whose message has the terminal substring.\<close>

definition world_terminal_rpc :: world where
  "world_terminal_rpc =
     world_ok \<lparr> getSignatureStatus :=
       (\<lambda>attempt. if attempt = 0 then Inr None
                  else Inl ''simulation failed on-chain: blockhash not found'') \<rparr>"

text \<open>The first status query throws another error, the second sees the confirmation.\<close>

definition world_flaky_rpc :: world where
  "world_flaky_rpc =
     world_ok \<lparr> getSignatureStatus :=
       (\<lambda>attempt. if attempt = 0 then Inl ''socket hang up''
                  else Inr (Some \<lparr> confirmationStatus = Some Confirmed, err = None \<rparr>)) \<rparr>"

text \<open>Every status query throws such an error.\<close>

definition world_silent_rpc :: world where
  "world_silent_rpc = world_ok \<lparr> getSignatureStatus := (\<lambda>attempt. Inl ''socket hang up'') \<rparr>"

subsection \<open>A ledger for the transaction relay\<close>

text \<open>A ledger that rejects what is submitted to it.\<close>

definition ledger0 :: "byte list \<Rightarrow> string reply" where
  "ledger0 txBuffer = Inl ''failed to send transaction: invalid transaction''"

section \<open>Properties\<close>

subsection \<open>Evaluating the decimal text\<close>

lemma digits_of_small: "n < 10 \<Longrightarrow> digits_of n = [digit_char n]"
  by (simp add: digits_of.simps)

lemma digits_of_large:
  "\<not> n < 10 \<Longrightarrow> digits_of n = digits_of (n div 10) @ [digit_char (n mod 10)]"
  by (subst digits_of.simps) simp

lemmas js_toString_eval = js_toString_def digits_of_small digits_of_large digit_char_def

subsection \<open>The decimal text determines the number\<close>

lemma index_of_nth:
  "distinct xs \<Longrightarrow> n < length xs \<Longrightarrow> index_of (xs ! n) xs = Some n"
proof (induction xs arbitrary: n)
  case Nil
  then show ?case by simp
next
  case (Cons x xs)
  show ?case
  proof (cases n)
    case 0
    then show ?thesis by simp
  next
    case (Suc m)
    with Cons.prems have "xs ! m \<in> set xs" and "x \<notin> set xs" by simp_all
    then have "x \<noteq> xs ! m" by blast
    with Suc Cons show ?thesis by simp
  qed
qed

lemma digit_char_in: "d < 10 \<Longrightarrow> digit_char d \<in> set ''0123456789''"
  unfolding digit_char_def by (rule nth_mem) simp

lemma digit_value_char: "d < 10 \<Longrightarrow> digit_value (digit_char d) = d"
  using index_of_nth [of "''0123456789''" d]
  by (simp add: digit_value_def digit_char_def)

lemma digits_value_snoc: "digits_value (cs @ [c]) = 10 * digits_value cs + digit_value c"
  by (simp add: digits_value_def)

lemma digits_value_digits_of: "digits_value (digits_of n) = n"
proof (induction n rule: digits_of.induct)
  case (1 n)
  show ?case
  proof (cases "n < 10")
    case True
    then show ?thesis by (simp add: digits_of_small digits_value_def digit_value_char)
  next
    case False
    with 1 show ?thesis
      by (simp add: digits_of_large digits_value_snoc digit_value_char)
  qed
qed

lemma digits_of_inj: "digits_of m = digits_of n \<Longrightarrow> m = n"
  by (metis digits_value_digits_of)

lemma digits_of_chars: "set (digits_of n) \<subseteq> set ''0123456789''"
proof (induction n rule: digits_of.induct)
  case (1 n)
  show ?case
  proof (cases "n < 10")
    case True
    then show ?thesis using digit_char_in [of n] by (simp add: digits_of_small)
  next
    case False
    with 1 show ?thesis using digit_char_in [of "n mod 10"] by (simp add: digits_of_large)
  qed
qed

lemma digits_of_nonempty: "digits_of n \<noteq> []"
  by (cases "n < 10") (simp_all add: digits_of_small digits_of_large)

lemma digits_of_no_sign: "CHR ''-'' \<notin> set (digits_of n)"
  using digits_of_chars [of n] by auto

lemma js_toString_inj: "js_toString a = js_toString b \<Longrightarrow> a = b"
proof -
  assume eq: "js_toString a = js_toString b"
  have hd: "hd (digits_of n) \<noteq> CHR ''-''" for n
    using digits_of_no_sign [of n] digits_of_nonempty [of n] by (metis hd_in_set)
  show ?thesis
  proof (cases "a < 0")
    case True
    show ?thesis
    proof (cases "b < 0")
      case True
      with \<open>a < 0\<close> eq have "digits_of (nat (- a)) = digits_of (nat (- b))"
        by (simp add: js_toString_def)
      then have "nat (- a) = nat (- b)" by (rule digits_of_inj)
      with True \<open>a < 0\<close> show ?thesis by simp
    next
      case False
      with \<open>a < 0\<close> eq have "CHR ''-'' # digits_of (nat (- a)) = digits_of (nat b)"
        by (simp add: js_toString_def)
      then have "hd (digits_of (nat b)) = CHR ''-''" by (metis list.sel(1))
      with hd show ?thesis by blast
    qed
  next
    case False
    show ?thesis
    proof (cases "b < 0")
      case True
      with \<open>\<not> a < 0\<close> eq have "digits_of (nat a) = CHR ''-'' # digits_of (nat (- b))"
        by (simp add: js_toString_def)
      then have "hd (digits_of (nat a)) = CHR ''-''" by (metis list.sel(1))
      with hd show ?thesis by blast
    next
      case False
      with \<open>\<not> a < 0\<close> eq have "digits_of (nat a) = digits_of (nat b)"
        by (simp add: js_toString_def)
      then have "nat a = nat b" by (rule digits_of_inj)
      with False \<open>\<not> a < 0\<close> show ?thesis by simp
    qed
  qed
qed

lemma js_toString_no_comma: "CHR '','' \<notin> set (js_toString n)"
  using digits_of_chars [of "nat n"] digits_of_chars [of "nat (- n)"]
  by (auto simp: js_toString_def)

lemma takeWhile_up_to: "c \<notin> set xs \<Longrightarrow> takeWhile (\<lambda>x. x \<noteq> c) (xs @ c # ys) = xs"
  by (induction xs) auto

text \<open>The two numbers can be read off the message.\<close>

lemma insufficient_text_inj:
  assumes "''Insufficient USDC. Have: '' @ js_toString h @ '', Need: '' @ js_toString n
         = ''Insufficient USDC. Have: '' @ js_toString h' @ '', Need: '' @ js_toString n'"
  shows "h = h' \<and> n = n'"
proof -
  let ?P = "\<lambda>c. c \<noteq> CHR '',''"
  from assms have eq: "js_toString h @ '', Need: '' @ js_toString n
      = js_toString h' @ '', Need: '' @ js_toString n'"
    by simp
  have tw: "takeWhile ?P (js_toString x @ '', Need: '' @ y) = js_toString x" for x y
    using takeWhile_up_to [OF js_toString_no_comma [of x]] by simp
  from eq have "takeWhile ?P (js_toString h @ '', Need: '' @ js_toString n)
      = takeWhile ?P (js_toString h' @ '', Need: '' @ js_toString n')"
    by simp
  then have first: "js_toString h = js_toString h'"
    by (simp only: tw)
  with eq have "js_toString n = js_toString n'" by simp
  with first show ?thesis using js_toString_inj by blast
qed

subsection \<open>Evaluating the division\<close>

text \<open>
  The quotient is exact for the default amount and for 1500000; for 123,
  2010000 and 1 it is the nearest double, as the runtime prints it:
  0.000123, 2.01 and 0.000001.
\<close>

lemma binade_up_stop: "d = 0 \<or> n < 2 * d \<Longrightarrow> binade_up n d = 0"
  by (subst binade_up.simps) simp

lemma binade_up_step: "\<not> (d = 0 \<or> n < 2 * d) \<Longrightarrow> binade_up n d = Suc (binade_up n (2 * d))"
  by (subst binade_up.simps) simp

lemma binade_down_stop: "n = 0 \<or> d \<le> n \<Longrightarrow> binade_down n d = 0"
  by (subst binade_down.simps) simp

lemma binade_down_step:
  "\<not> (n = 0 \<or> d \<le> n) \<Longrightarrow> binade_down n d = Suc (binade_down (2 * n) d)"
  by (subst binade_down.simps) simp

lemmas js_divide_eval =
  js_divide_def binade_def binade_up_stop binade_up_step binade_down_stop binade_down_step
  pow2_def nearest_even_def Let_def

lemma js_divide_default: "js_divide 1000000 1000000 = 1"
  by (simp add: js_divide_eval)

lemma js_divide_123: "js_divide 123 1000000 = 2268949521066275 / 18446744073709551616"
  by (simp add: js_divide_eval)

lemma js_divide_2010000: "js_divide 2010000 1000000 = 1131529406376837 / 562949953421312"
  by (simp add: js_divide_eval)

lemma js_divide_1500000: "js_divide 1500000 1000000 = 3 / 2"
  by (simp add: js_divide_eval)


lemma js_divide_one: "js_divide 1 1000000 = 4722366482869645 / 4722366482869645213696"
  by (simp add: js_divide_eval)

subsection \<open>The division rounds to the nearest double\<close>

lemma binade_up_bounds:
  "0 < d \<Longrightarrow> d \<le> n \<Longrightarrow> d * 2 ^ binade_up n d \<le> n \<and> n < d * 2 ^ Suc (binade_up n d)"
proof (induction n d rule: binade_up.induct)
  case (1 n d)
  show ?case
  proof (cases "n < 2 * d")
    case True
    with "1.prems" show ?thesis by (simp add: binade_up_stop)
  next
    case False
    with "1.prems" have step: "\<not> (d = 0 \<or> n < 2 * d)" by simp
    from "1.IH" [OF step] False "1.prems"
    have "2 * d * 2 ^ binade_up n (2 * d) \<le> n \<and> n < 2 * d * 2 ^ Suc (binade_up n (2 * d))"
      by simp
    then show ?thesis by (simp add: binade_up_step [OF step] mult.assoc mult.left_commute)
  qed
qed

lemma binade_down_bounds:
  "0 < n \<Longrightarrow> n < d \<Longrightarrow> d \<le> n * 2 ^ binade_down n d \<and> n * 2 ^ binade_down n d < 2 * d"
proof (induction n d rule: binade_down.induct)
  case (1 n d)
  from "1.prems" have step: "\<not> (n = 0 \<or> d \<le> n)" by simp
  show ?case
  proof (cases "d \<le> 2 * n")
    case True
    then have "binade_down (2 * n) d = 0" by (simp add: binade_down_stop)
    with True "1.prems" show ?thesis by (simp add: binade_down_step [OF step])
  next
    case False
    with "1.IH" [OF step] "1.prems"
    have "d \<le> 2 * n * 2 ^ binade_down (2 * n) d \<and> 2 * n * 2 ^ binade_down (2 * n) d < 2 * d"
      by simp
    then show ?thesis by (simp add: binade_down_step [OF step] mult.assoc mult.left_commute)
  qed
qed

lemma pow2_power_int: "pow2 k = power_int 2 k"
  by (simp add: pow2_def power_int_def power_one_over inverse_eq_divide)

lemma pow2_pos: "0 < pow2 k"
  by (simp add: pow2_def)

lemma pow2_Suc: "pow2 (k + 1) = 2 * pow2 k"
  by (simp add: pow2_power_int power_int_add)

lemma pow2_add: "pow2 (j + k) = pow2 j * pow2 k"
  by (simp add: pow2_power_int power_int_add)

lemma pow2_nat: "pow2 (int k) = 2 ^ k"
  by (simp add: pow2_def)

lemma pow2_neg_nat: "pow2 (- int k) = 1 / 2 ^ k"
  by (simp add: pow2_power_int power_int_minus inverse_eq_divide)

lemma pow2_one_minus: "pow2 (1 - int k) = 2 / 2 ^ k"
  using pow2_Suc [of "- int k"] by (simp add: pow2_neg_nat add.commute)

text \<open>\<open>binade\<close> gives the power of two at or below the quotient.\<close>

lemma binade_bounds:
  assumes "0 < n" and "0 < d"
  shows "pow2 (binade n d) \<le> of_nat n / of_nat d
       \<and> of_nat n / of_nat d < pow2 (binade n d + 1)"
proof (cases "d \<le> n")
  case True
  from binade_up_bounds [OF assms(2) True]
  have lo: "d * 2 ^ binade_up n d \<le> n" and hi: "n < d * 2 ^ Suc (binade_up n d)" by simp_all
  from lo have "(of_nat (d * 2 ^ binade_up n d) :: rat) \<le> of_nat n"
    by (simp only: of_nat_le_iff)
  then have a: "(2 :: rat) ^ binade_up n d \<le> of_nat n / of_nat d"
    using assms(2) by (simp add: le_divide_eq mult.commute)
  from hi have "(of_nat n :: rat) < of_nat (d * 2 ^ Suc (binade_up n d))"
    by (simp only: of_nat_less_iff)
  then have b: "of_nat n / of_nat d < (2 :: rat) ^ Suc (binade_up n d)"
    using assms(2) by (simp add: divide_less_eq mult.commute)
  from a b True show ?thesis
    by (simp add: binade_def pow2_Suc pow2_nat)
next
  case False
  then have less: "n < d" by simp
  from binade_down_bounds [OF assms(1) less]
  have lo: "d \<le> n * 2 ^ binade_down n d" and hi: "n * 2 ^ binade_down n d < 2 * d" by simp_all
  from lo have "(of_nat d :: rat) \<le> of_nat (n * 2 ^ binade_down n d)"
    by (simp only: of_nat_le_iff)
  then have a: "1 / (2 :: rat) ^ binade_down n d \<le> of_nat n / of_nat d"
    using assms(2) by (simp add: le_divide_eq divide_le_eq mult.commute)
  from hi have "(of_nat (n * 2 ^ binade_down n d) :: rat) < of_nat (2 * d)"
    by (simp only: of_nat_less_iff)
  then have b: "of_nat n / of_nat d < 2 * (1 / (2 :: rat) ^ binade_down n d)"
    using assms(2) by (simp add: divide_less_eq less_divide_eq mult.commute)
  from a b False show ?thesis
    by (simp add: binade_def pow2_one_minus pow2_neg_nat)
qed

lemma nearest_even_error:
  assumes "0 < D"
  shows "\<bar>of_int (nearest_even N D) - (of_int N / of_int D :: rat)\<bar> \<le> 1 / 2"
proof -
  define f where "f = N div D"
  define r where "r = N mod D"
  have N: "N = D * f + r" by (simp add: f_def r_def)
  from assms have r: "0 \<le> r" "r < D" by (simp_all add: r_def)
  from assms have D: "(0 :: rat) < of_int D" by simp
  have q: "(of_int N / of_int D :: rat) = of_int f + of_int r / of_int D"
    using D by (simp add: N field_simps)
  have x0: "(0 :: rat) \<le> of_int r / of_int D" using r(1) D by simp
  have x1: "(of_int r / of_int D :: rat) < 1" using r(2) D by simp
  consider "2 * r < D" | "D < 2 * r" | "2 * r = D" by linarith
  then show ?thesis
  proof cases
    case 1
    then have "(of_int (2 * r) :: rat) < of_int D" by (simp only: of_int_less_iff)
    then have "(of_int r / of_int D :: rat) < 1 / 2" using D by (simp add: field_simps)
    moreover from 1 have "nearest_even N D = f"
      by (simp add: nearest_even_def f_def r_def Let_def)
    ultimately show ?thesis using x0 by (simp add: q)
  next
    case 2
    then have "(of_int D :: rat) < of_int (2 * r)" by (simp only: of_int_less_iff)
    then have "1 / 2 < (of_int r / of_int D :: rat)" using D by (simp add: field_simps)
    moreover from 2 have "nearest_even N D = f + 1"
      by (simp add: nearest_even_def f_def r_def Let_def)
    ultimately show ?thesis using x1 by (simp add: q)
  next
    case 3
    then have "(of_int (2 * r) :: rat) = of_int D" by (simp only: of_int_eq_iff)
    then have half: "(of_int r / of_int D :: rat) = 1 / 2" using D by (simp add: field_simps)
    from 3 have "nearest_even N D = f \<or> nearest_even N D = f + 1"
      by (simp add: nearest_even_def f_def r_def Let_def)
    then show ?thesis by (auto simp: q half)
  qed
qed

text \<open>
  The result of the division is a double, a significand of at most 53 bits
  times the unit of the quotient's binade, and no double is nearer to the
  exact quotient: it is off by half a unit at most.
\<close>

lemma js_divide_magnitude:
  assumes "0 < n" and "0 < d"
  defines "e \<equiv> binade (nat n) (nat d)"
  defines "m \<equiv> (if e \<le> 52 then nearest_even (n * 2 ^ nat (52 - e)) d
                 else nearest_even n (d * 2 ^ nat (e - 52)))"
  shows "\<bar>of_int m * pow2 (e - 52) - (of_int n / of_int d :: rat)\<bar> \<le> pow2 (e - 52) / 2
       \<and> 2 ^ 52 \<le> m \<and> m \<le> 2 ^ 53"
proof -
  let ?q = "of_int n / of_int d :: rat"
  let ?u = "pow2 (e - 52)"
  have u: "0 < ?u" by (rule pow2_pos)
  from assms(1,2) have nat: "of_nat (nat n) = (of_int n :: rat)" "of_nat (nat d) = (of_int d :: rat)"
    by simp_all
  from binade_bounds [of "nat n" "nat d"] assms(1,2)
  have b: "pow2 e \<le> ?q" "?q < pow2 (e + 1)"
    by (simp_all add: e_def nat)
  have split: "pow2 e = pow2 52 * ?u"
    using pow2_add [of 52 "e - 52"] by simp
  have split': "pow2 (e + 1) = pow2 53 * ?u"
    using pow2_add [of 53 "e - 52"] by (simp add: add.commute)
  have p52: "pow2 52 = 2 ^ 52" and p53: "pow2 53 = 2 ^ 53"
    using pow2_nat [of 52] pow2_nat [of 53] by simp_all
  from b(1) have "(2 :: rat) ^ 52 * ?u \<le> ?q" by (simp add: split p52)
  with u have lo: "(2 :: rat) ^ 52 \<le> ?q / ?u"
    by (simp only: pos_le_divide_eq)
  from b(2) have "?q < (2 :: rat) ^ 53 * ?u" by (simp add: split' p53)
  with u have hi: "?q / ?u < (2 :: rat) ^ 53"
    by (simp only: pos_divide_less_eq)
  have err: "\<bar>of_int m - ?q / ?u\<bar> \<le> 1 / 2"
  proof (cases "e \<le> 52")
    case True
    then have "?u = 1 / 2 ^ nat (52 - e)"
      using pow2_neg_nat [of "nat (52 - e)"] by simp
    then have "?q / ?u = of_int (n * 2 ^ nat (52 - e)) / of_int d"
      by simp
    with True nearest_even_error [OF assms(2), of "n * 2 ^ nat (52 - e)"] show ?thesis
      by (simp add: m_def)
  next
    case False
    then have ueq: "?u = 2 ^ nat (e - 52)"
      using pow2_nat [of "nat (e - 52)"] by simp
    have qu: "?q / ?u = of_int n / of_int (d * 2 ^ nat (e - 52))"
      by (simp add: ueq)
    from False have mm: "m = nearest_even n (d * 2 ^ nat (e - 52))"
      by (simp add: m_def)
    from assms(2) have "0 < d * 2 ^ nat (e - 52)" by simp
    then have "\<bar>of_int (nearest_even n (d * 2 ^ nat (e - 52)))
        - (of_int n / of_int (d * 2 ^ nat (e - 52)) :: rat)\<bar> \<le> 1 / 2"
      by (rule nearest_even_error)
    then show ?thesis by (simp only: mm qu)
  qed
  have "\<bar>of_int m * ?u - ?q\<bar> = \<bar>of_int m - ?q / ?u\<bar> * ?u"
  proof -
    have "of_int m * ?u - ?q = (of_int m - ?q / ?u) * ?u"
      using u by (simp add: field_simps)
    then show ?thesis using u by (simp add: abs_mult)
  qed
  with err u have first: "\<bar>of_int m * ?u - ?q\<bar> \<le> ?u / 2"
    by (simp add: mult_right_mono)
  from err lo have "(2 :: rat) ^ 52 - 1 / 2 \<le> of_int m" by linarith
  then have "(of_int (2 ^ 52 - 1) :: rat) < of_int m" by simp
  then have "2 ^ 52 - 1 < m" by (simp only: of_int_less_iff)
  then have m_lo: "2 ^ 52 \<le> m" by simp
  from err hi have "(of_int m :: rat) < 2 ^ 53 + 1 / 2" by linarith
  then have "(of_int m :: rat) < of_int (2 ^ 53 + 1)" by simp
  then have "m < 2 ^ 53 + 1" by (simp only: of_int_less_iff)
  then have m_hi: "m \<le> 2 ^ 53" by simp
  from first m_lo m_hi show ?thesis by simp
qed

lemma js_divide_nearest:
  assumes "a \<noteq> 0" and "b \<noteq> 0"
  shows "\<exists>m. js_divide a b = of_int m * pow2 (binade (nat \<bar>a\<bar>) (nat \<bar>b\<bar>) - 52)
           \<and> 2 ^ 52 \<le> \<bar>m\<bar> \<and> \<bar>m\<bar> \<le> 2 ^ 53
           \<and> \<bar>js_divide a b - of_int a / of_int b\<bar>
               \<le> pow2 (binade (nat \<bar>a\<bar>) (nat \<bar>b\<bar>) - 52) / 2"
proof -
  define e where "e = binade (nat \<bar>a\<bar>) (nat \<bar>b\<bar>)"
  define m where "m = (if e \<le> 52 then nearest_even (\<bar>a\<bar> * 2 ^ nat (52 - e)) \<bar>b\<bar>
                       else nearest_even \<bar>a\<bar> (\<bar>b\<bar> * 2 ^ nat (e - 52)))"
  define sg where "sg = sgn a * sgn b"
  from assms have pos: "0 < \<bar>a\<bar>" "0 < \<bar>b\<bar>" by simp_all
  have "\<bar>of_int m * pow2 (e - 52) - (of_int \<bar>a\<bar> / of_int \<bar>b\<bar> :: rat)\<bar> \<le> pow2 (e - 52) / 2
      \<and> 2 ^ 52 \<le> m \<and> m \<le> 2 ^ 53"
    unfolding e_def m_def by (rule js_divide_magnitude [OF pos])
  then have mag: "\<bar>of_int m * pow2 (e - 52) - (of_int \<bar>a\<bar> / of_int \<bar>b\<bar> :: rat)\<bar> \<le> pow2 (e - 52) / 2"
    and m: "2 ^ 52 \<le> m" "m \<le> 2 ^ 53"
    by blast+
  from assms have sg: "\<bar>sg\<bar> = 1" by (simp add: sg_def abs_mult)
  have val: "js_divide a b = of_int (sg * m) * pow2 (e - 52)"
    using assms by (simp add: js_divide_def Let_def e_def m_def sg_def)
  have quot: "(of_int a / of_int b :: rat) = of_int sg * (of_int \<bar>a\<bar> / of_int \<bar>b\<bar>)"
  proof -
    have "a = sgn a * \<bar>a\<bar>" "b = sgn b * \<bar>b\<bar>" by (simp_all add: sgn_mult_abs)
    then have "(of_int a / of_int b :: rat)
        = (of_int (sgn a) * of_int \<bar>a\<bar>) / (of_int (sgn b) * of_int \<bar>b\<bar>)"
      by (metis of_int_mult)
    also have "\<dots> = of_int (sgn a) * of_int (sgn b) * (of_int \<bar>a\<bar> / of_int \<bar>b\<bar>)"
      using assms by (cases "0 < b") (simp_all add: sgn_if field_simps)
    finally show ?thesis by (simp add: sg_def)
  qed
  have diff: "js_divide a b - of_int a / of_int b
      = of_int sg * (of_int m * pow2 (e - 52) - of_int \<bar>a\<bar> / of_int \<bar>b\<bar>)"
    by (simp add: val quot algebra_simps)
  have "\<bar>js_divide a b - of_int a / of_int b\<bar>
      = \<bar>of_int m * pow2 (e - 52) - (of_int \<bar>a\<bar> / of_int \<bar>b\<bar> :: rat)\<bar>"
  proof -
    have "\<bar>of_int sg :: rat\<bar> = of_int \<bar>sg\<bar>" by simp
    with sg have "\<bar>of_int sg :: rat\<bar> = 1" by simp
    with diff show ?thesis by (simp only: abs_mult mult_1)
  qed
  with mag have near: "\<bar>js_divide a b - of_int a / of_int b\<bar> \<le> pow2 (e - 52) / 2" by simp
  from m sg have "2 ^ 52 \<le> \<bar>sg * m\<bar>" "\<bar>sg * m\<bar> \<le> 2 ^ 53" by (simp_all add: abs_mult)
  with val near show ?thesis unfolding e_def by blast
qed

subsection \<open>The store\<close>

lemma sessions_get_set_same: "sessions_get (sessions_set k v S) k = Some v"
  by (induction S) (auto simp: sessions_get_def)

lemma sessions_get_set_other:
  "k' \<noteq> k \<Longrightarrow> sessions_get (sessions_set k v S) k' = sessions_get S k'"
  by (induction S) (auto simp: sessions_get_def)

lemma keys_sessions_set:
  "map fst (sessions_set k v S) = (if k \<in> set (map fst S) then map fst S else map fst S @ [k])"
  by (induction S) auto

lemma distinct_sessions_set: "distinct (map fst S) \<Longrightarrow> distinct (map fst (sessions_set k v S))"
  by (simp add: keys_sessions_set)

lemma set_cleanup: "set (cleanup now k S) \<subseteq> set S"
  by (induction S arbitrary: k) auto

lemma distinct_cleanup: "distinct (map fst S) \<Longrightarrow> distinct (map fst (cleanup now k S))"
proof (induction S arbitrary: k)
  case Nil
  then show ?case by simp
next
  case (Cons p ps)
  have "fst p \<notin> fst ` set (cleanup now (Suc k) ps)"
    using Cons.prems set_cleanup [of now "Suc k" ps] by auto
  with Cons show ?case by simp
qed



lemma sessions_get_mem: "sessions_get S k = Some s \<Longrightarrow> (k, s) \<in> set S"
  by (simp add: sessions_get_def map_of_SomeD)

lemma sessions_get_distinct:
  "distinct (map fst S) \<Longrightarrow> (k, s) \<in> set S \<Longrightarrow> sessions_get S k = Some s"
  by (simp add: sessions_get_def)

lemma sessions_get_cleanup:
  "distinct (map fst S) \<Longrightarrow> sessions_get (cleanup now k S) a = Some s \<Longrightarrow>
   sessions_get S a = Some s"
  using sessions_get_mem sessions_get_distinct set_cleanup by blast

subsection \<open>Creating a session\<close>

lemma create_session_success:
  "create_session L cfg b rnd now S = ((200, body), S') \<Longrightarrow>
     \<exists>ata. getAssociatedTokenAddress L USDC_MINT (publicKey b) False TOKEN_PROGRAM_ID
              ASSOCIATED_TOKEN_PROGRAM_ID = Inr ata
         \<and> body = Created (new_session_id now rnd) (publicKey b) ata (PAYMENT_AMOUNT cfg)
         \<and> S' = cleanup now 3 (sessions_set (new_session_id now rnd) (new_session L b ata now) S)"
  by (auto simp: create_session_def Let_def split: sum.splits)

text \<open>The record found under the new id after the request is the one the request stored.\<close>

lemma created_record:
  assumes "distinct (map fst S)"
    and "create_session L cfg b rnd now S = ((200, Created sid addr ata amt), S')"
    and "sessions_get S' sid = Some s"
  shows "s = new_session L b ata now"
proof -
  from create_session_success [OF assms(2)]
  have sid: "sid = new_session_id now rnd"
    and S': "S' = cleanup now 3 (sessions_set sid (new_session L b ata now) S)"
    by auto
  have "distinct (map fst (sessions_set sid (new_session L b ata now) S))"
    using assms(1) by (rule distinct_sessions_set)
  with assms(3) S' have "sessions_get (sessions_set sid (new_session L b ata now) S) sid = Some s"
    using sessions_get_cleanup by blast
  then show ?thesis by (simp add: sessions_get_set_same)
qed

lemma create_session_steady:
  "create_session lib0 cfg0 burner0 random0 steady_clock [] =
     ((200, Created sid0 ''burner-key'' ''ata-of-burner-key'' 1000000), store0)"
  by (simp add: create_session_def lib0_def cfg0_def burner0_def random0_def steady_clock_def
      new_session_id_def new_session_def substr_def js_toString_eval sid0_def session0_def
      store0_def Let_def)

lemma sessions_get_store0: "sessions_get store0 sid0 = Some session0"
  by (simp add: sessions_get_def store0_def)

text \<open>
  What the stored record holds. \<open>createdAt\<close> and \<open>expiresAt\<close> come from two
  reads of the clock, the second one right after the first: the record a
  successful request stores has \<open>createdAt\<close> equal to the first of them and
  \<open>expiresAt\<close> equal to the second plus 900000 milliseconds. So
  \<open>expiresAt = createdAt + 900000\<close> holds whenever the two reads return the
  same value.
\<close>

lemma created_session_times:
  assumes "distinct (map fst S)"
    and "create_session L cfg b rnd now S = ((200, Created sid addr ata amt), S')"
    and "sessions_get S' sid = Some s"
  shows "createdAt s = now 1 \<and> expiresAt s = now 2 + 900000
       \<and> (now 2 = now 1 \<longrightarrow> expiresAt s = createdAt s + 900000)"
  using created_record [OF assms] by (simp add: new_session_def)

lemma created_session_times_steady:
  "createdAt session0 = steady_clock 1
   \<and> expiresAt session0 = steady_clock 2 + 900000
   \<and> expiresAt session0 = createdAt session0 + 900000"
  using created_session_times [of "[]" lib0 cfg0 burner0 random0 steady_clock sid0
      "''burner-key''" "''ata-of-burner-key''" 1000000 store0 session0]
    create_session_steady sessions_get_store0
  by (simp add: steady_clock_def)

text \<open>
  Claim C6: every session record that the session-creation operation
  stores has \<open>expiresAt = createdAt + 900000\<close>, the fixed time to live of 15
  minutes. The handler means to store that (``with 15 minute expiry''), but
  it calls \<open>Date.now()\<close> once for \<open>createdAt\<close> and once more for \<open>expiresAt\<close>,
  and misses the invariant when the clock advances between the two calls:
  in the request below the two calls return 1001 and 1002, and the record
  stored has \<open>createdAt = 1001\<close> and \<open>expiresAt = 901002\<close>, which is 900001
  milliseconds later and not 900000.
\<close>

theorem created_session_ttl_clock_tick:
  "ticking_clock 1 = 1001 \<and> ticking_clock 2 = 1002
   \<and> map createdAt (map snd (snd (create_session lib0 cfg0 burner0 random0 ticking_clock []))) = [1001]
   \<and> map expiresAt (map snd (snd (create_session lib0 cfg0 burner0 random0 ticking_clock []))) = [901002]
   \<and> (901002 :: int) \<noteq> 1001 + 900000"
  by (simp add: create_session_def lib0_def burner0_def ticking_clock_def new_session_def Let_def)

subsection \<open>The store under the two handlers\<close>

lemma sessions_get_delete:
  "sessions_get (sessions_delete k S) k' = (if k' = k then None else sessions_get S k')"
  by (induction S) (auto simp: sessions_get_def sessions_delete_def)

lemma distinct_sessions_delete:
  "distinct (map fst S) \<Longrightarrow> distinct (map fst (sessions_delete k S))"
  by (simp add: sessions_delete_def distinct_map_filter)

lemma execute_store:
  "sessions_after (execute_privacy_transaction cfg W req S) = S
   \<or> (\<exists>sid. sessions_after (execute_privacy_transaction cfg W req S) = sessions_delete sid S)"
  by (auto simp: execute_privacy_transaction_def split: option.splits sum.splits prod.splits)

lemma create_store:
  "snd (create_session L cfg b rnd now S) = S
   \<or> (\<exists>ata. snd (create_session L cfg b rnd now S) =
         cleanup now 3 (sessions_set (new_session_id now rnd) (new_session L b ata now) S))"
  by (auto simp: create_session_def Let_def split: sum.splits)

text \<open>The keys of the store stay distinct, as those of a \<open>Map\<close> are.\<close>

lemma handle_distinct: "distinct (map fst S) \<Longrightarrow> distinct (map fst (handle L cfg r S))"
proof (cases r)
  case (CreateSession b rnd now)
  then show "distinct (map fst S) \<Longrightarrow> ?thesis"
    using create_store [of L cfg b rnd now S]
    by (auto simp: distinct_cleanup distinct_sessions_set)
next
  case (ExecutePrivacyTransaction W req)
  then show "distinct (map fst S) \<Longrightarrow> ?thesis"
    using execute_store [of cfg W req S]
    by (auto simp: distinct_sessions_delete)
qed

lemma set_sessions_set: "set (sessions_set k v S) \<subseteq> insert (k, v) (set S)"
  by (induction S) auto

text \<open>
  No handler writes into a stored record: an entry of the store after a
  request was an entry before it, or is the record a session creation has
  just stored.
\<close>

lemma handle_entries:
  assumes "(k, s) \<in> set (handle L cfg r S)"
  shows "(k, s) \<in> set S \<or> stores L r k s"
proof (cases r)
  case (CreateSession b rnd now)
  show ?thesis
  proof (cases "getAssociatedTokenAddress L USDC_MINT (publicKey b) False
      TOKEN_PROGRAM_ID ASSOCIATED_TOKEN_PROGRAM_ID")
    case (Inl m)
    with assms CreateSession show ?thesis by (simp add: create_session_def)
  next
    case (Inr ata)
    with assms CreateSession
    have "(k, s) \<in> set (cleanup now 3
        (sessions_set (new_session_id now rnd) (new_session L b ata now) S))"
      by (simp add: create_session_def Let_def)
    then have "(k, s) \<in> insert (new_session_id now rnd, new_session L b ata now) (set S)"
      using set_cleanup set_sessions_set by blast
    with CreateSession Inr show ?thesis by auto
  qed
next
  case (ExecutePrivacyTransaction W req)
  with assms execute_store [of cfg W req S] show ?thesis
    by (auto simp: sessions_delete_def)
qed

lemma serve_entries:
  "(k, s) \<in> set (serve L cfg rs S) \<Longrightarrow> (k, s) \<in> set S \<or> (\<exists>r \<in> set rs. stores L r k s)"
proof (induction rs arbitrary: S)
  case Nil
  then show ?case by simp
next
  case (Cons r rs)
  from Cons.prems have "(k, s) \<in> set (serve L cfg rs (handle L cfg r S))" by simp
  from Cons.IH [OF this]
  have "(k, s) \<in> set (handle L cfg r S) \<or> (\<exists>r \<in> set rs. stores L r k s)" .
  then show ?case using handle_entries by fastforce
qed

text \<open>The address in a stored record is the one derived from the record's own key pair.\<close>

lemma stores_address:
  "stores L r k s \<Longrightarrow>
   getAssociatedTokenAddress L USDC_MINT (publicKey (burnerKeypair s)) False
     TOKEN_PROGRAM_ID ASSOCIATED_TOKEN_PROGRAM_ID = Inr (burnerATA s)"
  by (cases r) (auto simp: new_session_def split: sum.splits)

subsection \<open>Evaluating the loops\<close>

lemma balance_loop_done: "\<not> attempt < 10 \<Longrightarrow> balance_loop W cfg ata attempt b = (b, [])"
  by (simp add: balance_loop.simps)

lemma balance_loop_hit:
  "attempt < 10 \<Longrightarrow> getTokenAccountBalance W attempt = Inr a \<Longrightarrow> PAYMENT_AMOUNT cfg \<le> a \<Longrightarrow>
   balance_loop W cfg ata attempt b = (a, [GetTokenAccountBalance ata])"
  by (subst balance_loop.simps) simp

lemma balance_loop_miss:
  "attempt < 10 \<Longrightarrow> getTokenAccountBalance W attempt = Inr a \<Longrightarrow> a < PAYMENT_AMOUNT cfg \<Longrightarrow>
   balance_loop W cfg ata attempt b =
     (case balance_loop W cfg ata (Suc attempt) a of
        (b', cs) \<Rightarrow> (b', GetTokenAccountBalance ata # Delay 2000 # cs))"
  by (subst balance_loop.simps) simp

lemma balance_loop_error:
  "attempt < 10 \<Longrightarrow> getTokenAccountBalance W attempt = Inl e \<Longrightarrow>
   balance_loop W cfg ata attempt b =
     (case balance_loop W cfg ata (Suc attempt) b of
        (b', cs) \<Rightarrow> (b', GetTokenAccountBalance ata # Delay 2000 # cs))"
  by (subst balance_loop.simps) simp

lemma funding_loop_done: "\<not> attempt < 30 \<Longrightarrow> funding_loop W sg attempt = (Inr False, [])"
  by (simp add: funding_loop.simps)

lemma funding_loop_break:
  "attempt < 30 \<Longrightarrow> funding_attempt (getSignatureStatus W attempt) = Break \<Longrightarrow>
   funding_loop W sg attempt = (Inr True, [GetSignatureStatus sg])"
  by (subst funding_loop.simps) simp

lemma funding_loop_throw:
  "attempt < 30 \<Longrightarrow> funding_attempt (getSignatureStatus W attempt) = Throw m \<Longrightarrow>
   funding_loop W sg attempt = (Inl m, [GetSignatureStatus sg])"
  by (subst funding_loop.simps) simp

lemma funding_loop_continue:
  "attempt < 30 \<Longrightarrow> funding_attempt (getSignatureStatus W attempt) = Continue \<Longrightarrow>
   funding_loop W sg attempt =
     (case funding_loop W sg (Suc attempt) of
        (r, cs) \<Rightarrow> (r, GetSignatureStatus sg # Delay 1000 # cs))"
  by (subst funding_loop.simps) simp

subsection \<open>The calls of a run\<close>

lemma deposit_amounts_append:
  "deposit_amounts (cs @ cs') = deposit_amounts cs @ deposit_amounts cs'"
  by (induction cs rule: deposit_amounts.induct) auto

lemma withdraw_amounts_append:
  "withdraw_amounts (cs @ cs') = withdraw_amounts cs @ withdraw_amounts cs'"
  by (induction cs rule: withdraw_amounts.induct) auto

lemma funding_loop_calls:
  "set (snd (funding_loop W sg attempt)) \<subseteq> {GetSignatureStatus sg, Delay 1000}"
proof (induction W sg attempt rule: funding_loop.induct)
  case (1 W sg attempt)
  show ?case
    using 1 by (subst funding_loop.simps) (auto split: loop_step.splits prod.splits)
qed

lemma balance_loop_calls:
  "set (snd (balance_loop W cfg ata attempt b)) \<subseteq> {GetTokenAccountBalance ata, Delay 2000}"
proof (induction W cfg ata attempt b rule: balance_loop.induct)
  case (1 W cfg ata attempt b)
  show ?case
    using 1 by (subst balance_loop.simps) (auto split: sum.splits prod.splits)
qed

lemma polls_move_no_funds:
  "set cs \<subseteq> {GetSignatureStatus sg, Delay n} \<or> set cs \<subseteq> {GetTokenAccountBalance sg, Delay n} \<Longrightarrow>
   deposit_amounts cs = [] \<and> withdraw_amounts cs = []"
  by (induction cs) auto

lemma funding_stage_amounts:
  "deposit_amounts (snd (funding_stage W sg)) = []
   \<and> withdraw_amounts (snd (funding_stage W sg)) = []"
proof -
  have "set (snd (funding_stage W sg)) \<subseteq> {GetSignatureStatus (the sg), Delay 1000}"
    using funding_loop_calls [of W "the sg" 0]
    by (auto simp: funding_stage_def wait_for_funding_def
        split: option.splits prod.splits sum.splits if_splits)
  then show ?thesis using polls_move_no_funds by blast
qed

lemma verify_balance_amounts:
  "deposit_amounts (snd (verify_balance W cfg ata)) = []
   \<and> withdraw_amounts (snd (verify_balance W cfg ata)) = []"
proof -
  have "set (snd (verify_balance W cfg ata)) \<subseteq> {GetTokenAccountBalance ata, Delay 2000}"
    using balance_loop_calls [of W cfg ata 0 0]
    by (auto simp: verify_balance_def split: prod.splits)
  then show ?thesis using polls_move_no_funds by blast
qed

lemma issue_activation_amounts:
  "deposit_amounts (snd (issue_activation cfg W)) = []
   \<and> withdraw_amounts (snd (issue_activation cfg W)) = []"
  by (simp add: issue_activation_def)

subsection \<open>The stages of the pipeline\<close>

lemma privacy_relay_cases:
  "privacy_relay cfg W s =
     (case newPrivacyCash W of
        Inl m \<Rightarrow> (Inl m, [NewPrivacyCash (RPC_URL cfg) (burnerPrivateKeyBase58 s)])
      | Inr c \<Rightarrow>
         (case depositSPL W of
            Inl m \<Rightarrow> (Inl m, [NewPrivacyCash (RPC_URL cfg) (burnerPrivateKeyBase58 s),
                              DepositSPL (pool_amount cfg) USDC_MINT])
          | Inr d \<Rightarrow>
             (withdrawSPL W, [NewPrivacyCash (RPC_URL cfg) (burnerPrivateKeyBase58 s),
                              DepositSPL (pool_amount cfg) USDC_MINT, Delay 3000,
                              WithdrawSPL USDC_MINT (pool_amount cfg) (PAYMENT_WALLET cfg)])))"
  by (auto simp: privacy_relay_def then_stage_def split: sum.splits)

lemma pipeline_cases:
  "pipeline cfg W s sg =
     (case funding_stage W sg of
        (Inl m, c1) \<Rightarrow> (Inl m, c1)
      | (Inr u, c1) \<Rightarrow>
         (case verify_balance W cfg (burnerATA s) of
            (Inl m, c2) \<Rightarrow> (Inl m, c1 @ c2)
          | (Inr u, c2) \<Rightarrow>
             (case privacy_relay cfg W s of
                (Inl m, c3) \<Rightarrow> (Inl m, c1 @ c2 @ c3)
              | (Inr w, c3) \<Rightarrow>
                 (case issue_activation cfg W of
                    (Inl m, c4) \<Rightarrow> (Inl m, c1 @ c2 @ c3 @ c4)
                  | (Inr (i, t, l), c4) \<Rightarrow> (Inr (Activated i t l w), c1 @ c2 @ c3 @ c4)))))"
  by (auto simp: pipeline_def then_stage_def split: sum.splits prod.splits)

lemma pipeline_succeeds_iff:
  "succeeded (fst (pipeline cfg W s sg)) \<longleftrightarrow>
     succeeded (fst (funding_stage W sg)) \<and> succeeded (fst (verify_balance W cfg (burnerATA s)))
     \<and> succeeded (newPrivacyCash W) \<and> succeeded (depositSPL W) \<and> succeeded (withdrawSPL W)
     \<and> succeeded (fst (issue_activation cfg W))"
  by (auto simp: pipeline_cases privacy_relay_cases succeeded_def split: sum.splits prod.splits)

lemma pipeline_pool_amounts:
  "(deposit_amounts (snd (pipeline cfg W s sg)) = [] \<or>
    deposit_amounts (snd (pipeline cfg W s sg)) = [pool_amount cfg])
   \<and> (withdraw_amounts (snd (pipeline cfg W s sg)) = [] \<or>
    withdraw_amounts (snd (pipeline cfg W s sg)) = [pool_amount cfg])
   \<and> (succeeded (fst (pipeline cfg W s sg)) \<longrightarrow>
        deposit_amounts (snd (pipeline cfg W s sg)) = [pool_amount cfg]
        \<and> withdraw_amounts (snd (pipeline cfg W s sg)) = [pool_amount cfg])"
  using funding_stage_amounts [of W sg] verify_balance_amounts [of W cfg "burnerATA s"]
    issue_activation_amounts [of cfg W]
  by (auto simp: pipeline_cases privacy_relay_cases deposit_amounts_append withdraw_amounts_append
      succeeded_def split: sum.splits prod.splits)

lemma execute_resolved:
  "req_sessionId req = Some sid \<Longrightarrow> sid \<noteq> [] \<Longrightarrow> sessions_get S sid = Some s \<Longrightarrow>
   execute_privacy_transaction cfg W req S =
     (case pipeline cfg W s (fundingTxSignature req) of
        (Inl m, cs) \<Rightarrow> \<lparr> http_status = 500, reply_body = ExecFailed m,
                          calls = cs, sessions_after = S \<rparr>
      | (Inr b, cs) \<Rightarrow> \<lparr> http_status = 200, reply_body = b,
                          calls = cs, sessions_after = sessions_delete sid S \<rparr>)"
  by (simp add: execute_privacy_transaction_def)

subsection \<open>Three runs\<close>

lemmas run_eval =
  execute_privacy_transaction_def req0_def sid0_def store0_def sessions_get_def
  pipeline_def funding_stage_def then_stage_def verify_balance_def balance_loop_hit
  world_ok_def world_provision_down_def cfg0_def session0_def privacy_relay_def pool_amount_def
  issue_activation_def sessions_delete_def js_divide_default

lemma execute_ok:
  "execute_privacy_transaction cfg0 world_ok req0 store0 =
     \<lparr> http_status = 200,
       reply_body = Activated (Some ''device-1'') ''device-token''
                      ''exidvpn://activate?token=device-token'' ''withdraw-signature'',
       calls = [GetTokenAccountBalance ''ata-of-burner-key'',
                NewPrivacyCash ''https://api.mainnet-beta.solana.com'' ''base58-secret'',
                DepositSPL 1 USDC_MINT, Delay 3000,
                WithdrawSPL USDC_MINT 1 (Some ''operator-wallet''),
                FetchDevice ''https://api.dvpnsdk.com/device'' (Some ''app-token'')],
       sessions_after = [] \<rparr>"
  by (simp add: run_eval)

lemma execute_provision_down:
  "execute_privacy_transaction cfg0 world_provision_down req0 store0 =
     \<lparr> http_status = 500,
       reply_body = ExecFailed ''Failed to create device'',
       calls = [GetTokenAccountBalance ''ata-of-burner-key'',
                NewPrivacyCash ''https://api.mainnet-beta.solana.com'' ''base58-secret'',
                DepositSPL 1 USDC_MINT, Delay 3000,
                WithdrawSPL USDC_MINT 1 (Some ''operator-wallet''),
                FetchDevice ''https://api.dvpnsdk.com/device'' (Some ''app-token'')],
       sessions_after = store0 \<rparr>"
  by (simp add: run_eval)

lemma create_session_late:
  "create_session lib0 cfg0 burner0 random1 late_clock store0 =
     ((200, Created ''session_5000000_k3x9q0a7z'' ''burner-key'' ''ata-of-burner-key'' 1000000),
      [(''session_5000000_k3x9q0a7z'', session0 \<lparr> createdAt := 5000000, expiresAt := 5900000 \<rparr>)])"
  by (simp add: create_session_def lib0_def cfg0_def burner0_def random1_def late_clock_def
      new_session_id_def new_session_def substr_def js_toString_eval sid0_def session0_def
      store0_def Let_def)

subsection \<open>The deposit address\<close>

text \<open>
  Claim C8. The deposit address of a created session is the associated token
  address derived from the burner's public key, the token mint and the two
  program identifiers, and from nothing else: a creation from the same
  credential, with any other configuration, random text, clock and store,
  sends the same address; and in every record of a store that requests have
  built up from the empty one, the address is the one derived from the key
  pair of that record. After the creation, whatever requests are served
  next, no stored record is changed: every entry of the store is an entry
  that was there before or the record that a later creation has stored. In
  particular the record found under the session's id is the record of this
  session, with the address it was created with, or else the record that a
  later creation has stored under the same id (the handler does not check
  that a generated id is new; see \<open>regenerated_id_stores_new_record\<close>).
\<close>

theorem deposit_address_deterministic:
  assumes "distinct (map fst S)"
    and "create_session L cfg b rnd now S = ((200, Created sid addr ata amt), S1)"
  shows "getAssociatedTokenAddress L USDC_MINT (publicKey b) False TOKEN_PROGRAM_ID
           ASSOCIATED_TOKEN_PROGRAM_ID = Inr ata
       \<and> (\<forall>cfg' rnd' now' T body T'.
             create_session L cfg' b rnd' now' T = ((200, body), T') \<longrightarrow> burnerATA_sent body = ata)
       \<and> (\<forall>rs k s. (k, s) \<in> set (serve L cfg rs []) \<longrightarrow>
             getAssociatedTokenAddress L USDC_MINT (publicKey (burnerKeypair s)) False
               TOKEN_PROGRAM_ID ASSOCIATED_TOKEN_PROGRAM_ID = Inr (burnerATA s))
       \<and> (\<forall>rs k s. (k, s) \<in> set (serve L cfg rs S1) \<longrightarrow>
             (k, s) \<in> set S1 \<or> (\<exists>r \<in> set rs. stores L r k s))
       \<and> (\<forall>rs s. sessions_get (serve L cfg rs S1) sid = Some s \<longrightarrow>
             (s = new_session L b ata now \<and> burnerATA s = ata)
             \<or> (\<exists>r \<in> set rs. stores L r sid s))"
proof (intro conjI allI impI)
  from create_session_success [OF assms(2)]
  show d: "getAssociatedTokenAddress L USDC_MINT (publicKey b) False TOKEN_PROGRAM_ID
           ASSOCIATED_TOKEN_PROGRAM_ID = Inr ata" by auto
  fix cfg' rnd' now' T body T'
  assume "create_session L cfg' b rnd' now' T = ((200, body), T')"
  from create_session_success [OF this] d show "burnerATA_sent body = ata" by auto
next
  fix rs k s
  assume "(k, s) \<in> set (serve L cfg rs [])"
  from serve_entries [OF this] obtain r where "stores L r k s" by auto
  then show "getAssociatedTokenAddress L USDC_MINT (publicKey (burnerKeypair s)) False
               TOKEN_PROGRAM_ID ASSOCIATED_TOKEN_PROGRAM_ID = Inr (burnerATA s)"
    by (rule stores_address)
next
  fix rs k s
  assume "(k, s) \<in> set (serve L cfg rs S1)"
  then show "(k, s) \<in> set S1 \<or> (\<exists>r \<in> set rs. stores L r k s)"
    by (rule serve_entries)
next
  fix rs s
  assume get: "sessions_get (serve L cfg rs S1) sid = Some s"
  from create_session_success [OF assms(2)]
  have S1: "S1 = cleanup now 3 (sessions_set (new_session_id now rnd) (new_session L b ata now) S)"
    by auto
  have dist: "distinct (map fst S1)"
    unfolding S1 using assms(1) by (simp add: distinct_cleanup distinct_sessions_set)
  from get have "(sid, s) \<in> set (serve L cfg rs S1)" by (rule sessions_get_mem)
  from serve_entries [OF this]
  show "(s = new_session L b ata now \<and> burnerATA s = ata) \<or> (\<exists>r \<in> set rs. stores L r sid s)"
  proof
    assume "(sid, s) \<in> set S1"
    with dist have "sessions_get S1 sid = Some s" by (rule sessions_get_distinct)
    with created_record [OF assms] have "s = new_session L b ata now" by simp
    then show ?thesis by (simp add: new_session_def)
  next
    assume "\<exists>r \<in> set rs. stores L r sid s"
    then show ?thesis ..
  qed
qed

lemma create_session_again:
  "create_session lib0 cfg0 burner1 random0 steady_clock store0 =
     ((200, Created sid0 ''other-key'' ''ata-of-other-key'' 1000000),
      [(sid0, new_session lib0 burner1 ''ata-of-other-key'' steady_clock)])"
  by (simp add: create_session_def lib0_def cfg0_def burner1_def random0_def steady_clock_def
      new_session_id_def new_session_def substr_def js_toString_eval sid0_def session0_def
      store0_def Let_def)

text \<open>
  A later creation that generates the id of \<open>session0\<close> again (the same
  millisecond, the same random text) stores its own record under that id:
  the record found there is then the new session's, with the address derived
  from the new key pair.
\<close>

lemma regenerated_id_stores_new_record:
  "sessions_get store0 sid0 = Some session0 \<and> burnerATA session0 = ''ata-of-burner-key''
   \<and> stores lib0 (CreateSession burner1 random0 steady_clock) sid0
        (new_session lib0 burner1 ''ata-of-other-key'' steady_clock)
   \<and> sessions_get (serve lib0 cfg0 [CreateSession burner1 random0 steady_clock] store0) sid0
       = Some (new_session lib0 burner1 ''ata-of-other-key'' steady_clock)
   \<and> burnerATA (new_session lib0 burner1 ''ata-of-other-key'' steady_clock) = ''ata-of-other-key''"
  by (simp add: create_session_again sessions_get_store0)
    (simp add: sessions_get_def session0_def new_session_def lib0_def burner1_def
      new_session_id_def random0_def steady_clock_def substr_def js_toString_eval sid0_def)

theorem deposit_address_deterministic_witness:
  "distinct (map fst ([] :: store))
   \<and> create_session lib0 cfg0 burner0 random0 steady_clock [] =
       ((200, Created sid0 ''burner-key'' ''ata-of-burner-key'' 1000000), store0)
   \<and> getAssociatedTokenAddress lib0 USDC_MINT (publicKey burner0) False TOKEN_PROGRAM_ID
       ASSOCIATED_TOKEN_PROGRAM_ID = Inr ''ata-of-burner-key''
   \<and> burnerATA_sent (snd (fst (create_session lib0 cfg0 burner0 random1 late_clock store0)))
       = ''ata-of-burner-key''
   \<and> (sid0, session0) \<in> set (serve lib0 cfg0 [CreateSession burner0 random0 steady_clock] [])
   \<and> getAssociatedTokenAddress lib0 USDC_MINT (publicKey (burnerKeypair session0)) False
       TOKEN_PROGRAM_ID ASSOCIATED_TOKEN_PROGRAM_ID = Inr (burnerATA session0)
   \<and> sessions_get (serve lib0 cfg0 [ExecutePrivacyTransaction world_provision_down req0] store0) sid0
       = Some session0
   \<and> \<not> stores lib0 (ExecutePrivacyTransaction world_provision_down req0) sid0 session0
   \<and> session0 = new_session lib0 burner0 ''ata-of-burner-key'' steady_clock
   \<and> burnerATA session0 = ''ata-of-burner-key''"
proof -
  note t = deposit_address_deterministic [of "[]" lib0 cfg0 burner0 random0 steady_clock sid0
      "''burner-key''" "''ata-of-burner-key''" 1000000 store0, OF _ create_session_steady,
      simplified]
  have served: "sessions_get (serve lib0 cfg0 [ExecutePrivacyTransaction world_provision_down req0]
      store0) sid0 = Some session0"
    by (simp add: execute_provision_down sessions_get_store0)
  have built: "(sid0, session0) \<in> set (serve lib0 cfg0 [CreateSession burner0 random0 steady_clock] [])"
    by (simp add: create_session_steady store0_def)
  from t have c1: "getAssociatedTokenAddress lib0 USDC_MINT (publicKey burner0) False
      TOKEN_PROGRAM_ID ASSOCIATED_TOKEN_PROGRAM_ID = Inr ''ata-of-burner-key''"
    by blast
  from t have "burnerATA_sent (snd (fst (create_session lib0 cfg0 burner0 random1 late_clock store0)))
       = ''ata-of-burner-key''"
    using create_session_late by auto
  moreover from t built
  have "getAssociatedTokenAddress lib0 USDC_MINT (publicKey (burnerKeypair session0)) False
       TOKEN_PROGRAM_ID ASSOCIATED_TOKEN_PROGRAM_ID = Inr (burnerATA session0)"
    by blast
  moreover from t served
  have "session0 = new_session lib0 burner0 ''ata-of-burner-key'' steady_clock
      \<and> burnerATA session0 = ''ata-of-burner-key''"
    by (metis empty_iff empty_set set_ConsD stores.simps(2))
  ultimately show ?thesis
    using c1 served built create_session_steady by simp
qed

subsection \<open>The orchestrator and the session\<close>

text \<open>
  Claim C3. For a request whose session id resolves to a stored session, the
  entry is absent from the store after the run if and only if the funding
  stage, the balance verification, the construction of the pool client, the
  deposit, the withdrawal and the activation all succeeded. When one of them
  fails the store is left as it was and the reply is an error (status 500);
  when all succeed the reply has status 200 and the store is the old one
  without the entry.
\<close>

theorem session_deleted_iff_all_stages:
  assumes "req_sessionId req = Some sid" and "sid \<noteq> []" and "sessions_get S sid = Some s"
  shows "(sessions_get (sessions_after (execute_privacy_transaction cfg W req S)) sid = None
          \<longleftrightarrow> succeeded (fst (funding_stage W (fundingTxSignature req)))
              \<and> succeeded (fst (verify_balance W cfg (burnerATA s)))
              \<and> succeeded (newPrivacyCash W) \<and> succeeded (depositSPL W)
              \<and> succeeded (withdrawSPL W)
              \<and> succeeded (fst (issue_activation cfg W)))
       \<and> (sessions_get (sessions_after (execute_privacy_transaction cfg W req S)) sid \<noteq> None
          \<longrightarrow> sessions_after (execute_privacy_transaction cfg W req S) = S
              \<and> http_status (execute_privacy_transaction cfg W req S) = 500)
       \<and> (sessions_get (sessions_after (execute_privacy_transaction cfg W req S)) sid = None
          \<longrightarrow> sessions_after (execute_privacy_transaction cfg W req S) = sessions_delete sid S
              \<and> http_status (execute_privacy_transaction cfg W req S) = 200)"
proof -
  let ?all = "succeeded (fst (funding_stage W (fundingTxSignature req)))
              \<and> succeeded (fst (verify_balance W cfg (burnerATA s)))
              \<and> succeeded (newPrivacyCash W) \<and> succeeded (depositSPL W)
              \<and> succeeded (withdrawSPL W)
              \<and> succeeded (fst (issue_activation cfg W))"
  have iff: "?all \<longleftrightarrow> succeeded (fst (pipeline cfg W s (fundingTxSignature req)))"
    by (simp only: pipeline_succeeds_iff)
  show ?thesis
  proof (cases "pipeline cfg W s (fundingTxSignature req)")
    case (Pair r cs)
    show ?thesis
    proof (cases r)
      case (Inl m)
      with Pair have "\<not> ?all" unfolding iff by (simp add: succeeded_def)
      then show ?thesis
        using Pair Inl assms by (simp add: execute_resolved)
    next
      case (Inr b)
      with Pair have "?all" unfolding iff by (simp add: succeeded_def)
      then show ?thesis
        using Pair Inr assms by (simp add: execute_resolved sessions_get_delete)
    qed
  qed
qed

theorem session_deleted_iff_all_stages_witness:
  "req_sessionId req0 = Some sid0 \<and> sid0 \<noteq> [] \<and> sessions_get store0 sid0 = Some session0
   \<and> sessions_get (sessions_after (execute_privacy_transaction cfg0 world_ok req0 store0)) sid0 = None
   \<and> succeeded (fst (issue_activation cfg0 world_ok))
   \<and> http_status (execute_privacy_transaction cfg0 world_ok req0 store0) = 200
   \<and> sessions_get (sessions_after (execute_privacy_transaction cfg0 world_provision_down req0 store0))
        sid0 = Some session0
   \<and> \<not> succeeded (fst (issue_activation cfg0 world_provision_down))
   \<and> sessions_after (execute_privacy_transaction cfg0 world_provision_down req0 store0) = store0
   \<and> http_status (execute_privacy_transaction cfg0 world_provision_down req0 store0) = 500"
proof -
  have r: "req_sessionId req0 = Some sid0" "sid0 \<noteq> []" "sessions_get store0 sid0 = Some session0"
    by (simp add: req0_def, simp add: sid0_def, rule sessions_get_store0)
  have gone: "sessions_get (sessions_after (execute_privacy_transaction cfg0 world_ok req0 store0))
      sid0 = None"
    by (simp add: execute_ok sessions_get_def)
  have kept: "sessions_get (sessions_after
      (execute_privacy_transaction cfg0 world_provision_down req0 store0)) sid0 = Some session0"
    by (simp add: execute_provision_down sessions_get_store0)
  from session_deleted_iff_all_stages [OF r, of cfg0 world_ok] gone
  have a: "succeeded (fst (issue_activation cfg0 world_ok))
      \<and> http_status (execute_privacy_transaction cfg0 world_ok req0 store0) = 200"
    by blast
  from session_deleted_iff_all_stages [OF r, of cfg0 world_provision_down] kept
  have b: "sessions_after (execute_privacy_transaction cfg0 world_provision_down req0 store0) = store0
      \<and> http_status (execute_privacy_transaction cfg0 world_provision_down req0 store0) = 500"
    by simp
  have c: "\<not> succeeded (fst (issue_activation cfg0 world_provision_down))"
    by (simp add: issue_activation_def world_provision_down_def world_ok_def succeeded_def)
  from r gone kept a b c show ?thesis by simp
qed

subsection \<open>The amounts given to the pool\<close>

lemma execute_odd:
  "calls (execute_privacy_transaction cfg_odd world_ok req0 store0) =
     [GetTokenAccountBalance ''ata-of-burner-key'',
      NewPrivacyCash ''https://api.mainnet-beta.solana.com'' ''base58-secret'',
      DepositSPL (2268949521066275 / 18446744073709551616) USDC_MINT, Delay 3000,
      WithdrawSPL USDC_MINT (2268949521066275 / 18446744073709551616) (Some ''operator-wallet''),
      FetchDevice ''https://api.dvpnsdk.com/device'' (Some ''app-token'')]"
  by (simp add: execute_privacy_transaction_def req0_def sid0_def store0_def sessions_get_def
      pipeline_def funding_stage_def then_stage_def verify_balance_def balance_loop_hit
      world_ok_def cfg_odd_def cfg0_def session0_def privacy_relay_def pool_amount_def
      issue_activation_def js_divide_123)

text \<open>
  Claim C2, as the code has it. In every run of the handler, each amount
  passed to the pool's deposit operation and each amount passed to its
  withdrawal operation is one and the same number, the quotient
  \<open>PAYMENT_AMOUNT / 1_000_000\<close> as the runtime computes it: the configured
  amount converted from minor units to tokens and rounded to the nearest
  double. A run that succeeds makes exactly one deposit and one withdrawal,
  both of that number.
\<close>

theorem pool_amounts_same_number:
  "set (deposit_amounts (calls (execute_privacy_transaction cfg W req S)))
     \<subseteq> {js_divide (PAYMENT_AMOUNT cfg) 1000000}
   \<and> set (withdraw_amounts (calls (execute_privacy_transaction cfg W req S)))
     \<subseteq> {js_divide (PAYMENT_AMOUNT cfg) 1000000}
   \<and> (http_status (execute_privacy_transaction cfg W req S) = 200 \<longrightarrow>
        deposit_amounts (calls (execute_privacy_transaction cfg W req S))
          = [js_divide (PAYMENT_AMOUNT cfg) 1000000]
        \<and> withdraw_amounts (calls (execute_privacy_transaction cfg W req S))
          = [js_divide (PAYMENT_AMOUNT cfg) 1000000])"
proof (cases "\<exists>sid s. req_sessionId req = Some sid \<and> sid \<noteq> [] \<and> sessions_get S sid = Some s")
  case True
  then obtain sid s where
    r: "req_sessionId req = Some sid" "sid \<noteq> []" "sessions_get S sid = Some s"
    by blast
  show ?thesis
    using pipeline_pool_amounts [of cfg W s "fundingTxSignature req"]
    by (auto simp: execute_resolved [OF r] succeeded_def pool_amount_def
        split: sum.splits prod.splits)
next
  case False
  then have "calls (execute_privacy_transaction cfg W req S) = []
             \<and> http_status (execute_privacy_transaction cfg W req S) = 400"
    by (auto simp: execute_privacy_transaction_def split: option.splits)
  then show ?thesis by simp
qed

theorem pool_amounts_same_number_witness:
  "http_status (execute_privacy_transaction cfg0 world_ok req0 store0) = 200
   \<and> PAYMENT_AMOUNT cfg0 = 1000000
   \<and> deposit_amounts (calls (execute_privacy_transaction cfg0 world_ok req0 store0)) = [1]
   \<and> withdraw_amounts (calls (execute_privacy_transaction cfg0 world_ok req0 store0)) = [1]"
  using pool_amounts_same_number [of cfg0 world_ok req0 store0]
  by (simp add: execute_ok) (simp add: cfg0_def js_divide_default)

text \<open>
  Claim C2 as the specification words it, that the amounts passed match
  exactly the configured amount in minor units, fails. For the default
  configuration the configured amount is 1000000 and the handler passes 1 to
  both operations. And the number passed need not even be the configured
  amount in another unit: for a configured amount of 123 both operations are
  given the double nearest to 0.000123, which is not 123 millionths.
\<close>

theorem pool_amount_minor_units_counterexample:
  "PAYMENT_AMOUNT cfg0 = 1000000
   \<and> deposit_amounts (calls (execute_privacy_transaction cfg0 world_ok req0 store0)) = [1]
   \<and> withdraw_amounts (calls (execute_privacy_transaction cfg0 world_ok req0 store0)) = [1]
   \<and> (1 :: rat) \<noteq> of_int (PAYMENT_AMOUNT cfg0)
   \<and> PAYMENT_AMOUNT cfg_odd = 123
   \<and> deposit_amounts (calls (execute_privacy_transaction cfg_odd world_ok req0 store0))
       = [2268949521066275 / 18446744073709551616]
   \<and> withdraw_amounts (calls (execute_privacy_transaction cfg_odd world_ok req0 store0))
       = [2268949521066275 / 18446744073709551616]
   \<and> (2268949521066275 / 18446744073709551616 :: rat) \<noteq> 123
   \<and> (2268949521066275 / 18446744073709551616 :: rat) * 1000000 \<noteq> 123"
  by (simp add: execute_ok execute_odd) (simp add: cfg0_def cfg_odd_def)

subsection \<open>Looking a session up\<close>





subsection \<open>The balance loop\<close>

text \<open>While no attempt meets the requirement the loop runs to its end.\<close>

lemma balance_loop_exhausts:
  "b = observed_after W attempt \<Longrightarrow> attempt \<le> 10 \<Longrightarrow>
   (\<forall>j. attempt \<le> j \<and> j < 10 \<longrightarrow> \<not> meets W cfg j) \<Longrightarrow>
   fst (balance_loop W cfg ata attempt b) = observed_after W 10
   \<and> balance_polls (snd (balance_loop W cfg ata attempt b)) = 10 - attempt"
proof (induction W cfg ata attempt b rule: balance_loop.induct)
  case (1 W cfg ata attempt b)
  show ?case
  proof (cases "attempt < 10")
    case False
    with "1.prems" have "attempt = 10" by simp
    with "1.prems" show ?thesis by (simp add: balance_loop_done)
  next
    case True
    with "1.prems" have nm: "\<not> meets W cfg attempt" by simp
    show ?thesis
    proof (cases "getTokenAccountBalance W attempt")
      case (Inl e)
      have "fst (balance_loop W cfg ata (Suc attempt) b) = observed_after W 10
          \<and> balance_polls (snd (balance_loop W cfg ata (Suc attempt) b)) = 10 - Suc attempt"
        using "1.IH"(1) [OF True Inl] "1.prems" True Inl by simp
      then show ?thesis
        using True Inl by (auto simp: balance_loop_error split: prod.splits)
    next
      case (Inr a)
      with nm have lt: "a < PAYMENT_AMOUNT cfg" by (simp add: meets_def)
      then have nle: "\<not> PAYMENT_AMOUNT cfg \<le> a" by simp
      have "fst (balance_loop W cfg ata (Suc attempt) a) = observed_after W 10
          \<and> balance_polls (snd (balance_loop W cfg ata (Suc attempt) a)) = 10 - Suc attempt"
        using "1.IH"(2) [OF True Inr nle] "1.prems" True Inr by simp
      then show ?thesis
        using True Inr lt by (auto simp: balance_loop_miss split: prod.splits)
    qed
  qed
qed

text \<open>The loop stops at the first attempt that meets the requirement.\<close>

lemma balance_loop_stops:
  "attempt \<le> k \<Longrightarrow> k < 10 \<Longrightarrow> getTokenAccountBalance W k = Inr a \<Longrightarrow> PAYMENT_AMOUNT cfg \<le> a \<Longrightarrow>
   (\<forall>j. attempt \<le> j \<and> j < k \<longrightarrow> \<not> meets W cfg j) \<Longrightarrow>
   fst (balance_loop W cfg ata attempt b) = a
   \<and> balance_polls (snd (balance_loop W cfg ata attempt b)) = Suc k - attempt"
proof (induction W cfg ata attempt b rule: balance_loop.induct)
  case (1 W cfg ata attempt b)
  from "1.prems" have lt10: "attempt < 10" by simp
  show ?case
  proof (cases "attempt = k")
    case True
    with "1.prems" show ?thesis by (simp add: balance_loop_hit)
  next
    case False
    with "1.prems" have less: "attempt < k" and nm: "\<not> meets W cfg attempt" by simp_all
    show ?thesis
    proof (cases "getTokenAccountBalance W attempt")
      case (Inl e)
      have "fst (balance_loop W cfg ata (Suc attempt) b) = a
          \<and> balance_polls (snd (balance_loop W cfg ata (Suc attempt) b)) = Suc k - Suc attempt"
        using "1.IH"(1) [OF lt10 Inl] "1.prems" less by simp
      then show ?thesis
        using lt10 Inl less by (auto simp: balance_loop_error split: prod.splits)
    next
      case (Inr a')
      with nm have lt: "a' < PAYMENT_AMOUNT cfg" by (simp add: meets_def)
      then have nle: "\<not> PAYMENT_AMOUNT cfg \<le> a'" by simp
      have "fst (balance_loop W cfg ata (Suc attempt) a') = a
          \<and> balance_polls (snd (balance_loop W cfg ata (Suc attempt) a')) = Suc k - Suc attempt"
        using "1.IH"(2) [OF lt10 Inr nle] "1.prems" less by simp
      then show ?thesis
        using lt10 Inr lt less by (auto simp: balance_loop_miss split: prod.splits)
    qed
  qed
qed

lemma balance_polls_bound: "balance_polls (snd (balance_loop W cfg ata attempt b)) \<le> 10 - attempt"
proof (induction W cfg ata attempt b rule: balance_loop.induct)
  case (1 W cfg ata attempt b)
  show ?case
  proof (cases "attempt < 10")
    case False
    then show ?thesis by (simp add: balance_loop_done)
  next
    case True
    show ?thesis
    proof (cases "getTokenAccountBalance W attempt")
      case (Inl e)
      with "1.IH"(1) [OF True Inl] True show ?thesis
        by (auto simp: balance_loop_error split: prod.splits)
    next
      case (Inr a)
      show ?thesis
      proof (cases "PAYMENT_AMOUNT cfg \<le> a")
        case True
        with \<open>attempt < 10\<close> Inr show ?thesis by (simp add: balance_loop_hit)
      next
        case False
        with "1.IH"(2) [OF True Inr False] True Inr show ?thesis
          by (auto simp: balance_loop_miss split: prod.splits)
      qed
    qed
  qed
qed

text \<open>Among the ten attempts there is a first one that meets the requirement, or none does.\<close>

lemma first_meets:
  assumes "\<exists>k<10. meets W cfg k"
  obtains k where "k < 10" and "meets W cfg k" and "\<forall>j<k. \<not> meets W cfg j"
proof -
  define k where "k = (LEAST k. k < 10 \<and> meets W cfg k)"
  from assms have "k < 10 \<and> meets W cfg k"
    unfolding k_def by (metis (mono_tags, lifting) LeastI)
  moreover have "\<forall>j<k. \<not> meets W cfg j"
  proof (intro allI impI)
    fix j assume "j < k"
    then have "\<not> (j < 10 \<and> meets W cfg j)"
      unfolding k_def by (rule not_less_Least)
    moreover from \<open>j < k\<close> \<open>k < 10 \<and> meets W cfg k\<close> have "j < 10" by simp
    ultimately show "\<not> meets W cfg j" by simp
  qed
  ultimately show ?thesis using that by blast
qed

lemma meets_amount: "meets W cfg k \<Longrightarrow> \<exists>a. getTokenAccountBalance W k = Inr a \<and> PAYMENT_AMOUNT cfg \<le> a"
  by (simp add: meets_def split: sum.splits)

text \<open>The verifier succeeds exactly when the balance it last observed meets the requirement.\<close>

lemma verify_balance_result:
  "verify_balance W cfg ata =
     (if fst (balance_loop W cfg ata 0 0) < PAYMENT_AMOUNT cfg
      then Inl (insufficient (fst (balance_loop W cfg ata 0 0)) (PAYMENT_AMOUNT cfg))
      else Inr (),
      snd (balance_loop W cfg ata 0 0))"
  by (simp add: verify_balance_def split: prod.splits)

text \<open>A failure of the verifier means that no attempt met the requirement.\<close>

lemma verify_balance_fails_no_meets:
  assumes "fst (verify_balance W cfg ata) = Inl m"
  shows "\<forall>k<10. \<not> meets W cfg k"
proof (rule ccontr)
  assume "\<not> (\<forall>k<10. \<not> meets W cfg k)"
  then have "\<exists>k<10. meets W cfg k" by blast
  then obtain k where k: "k < 10" "meets W cfg k" "\<forall>j<k. \<not> meets W cfg j"
    by (rule first_meets)
  from meets_amount [OF k(2)] obtain a where
    a: "getTokenAccountBalance W k = Inr a" "PAYMENT_AMOUNT cfg \<le> a" by blast
  have "fst (balance_loop W cfg ata 0 0) = a"
    using balance_loop_stops [of 0 k W a cfg ata 0] k a by simp
  with a(2) assms show False by (simp add: verify_balance_result)
qed

lemma observed_after_recent:
  "j < n \<Longrightarrow> getTokenAccountBalance W j = Inr a \<Longrightarrow>
   (\<forall>i. j < i \<and> i < n \<longrightarrow> isl (getTokenAccountBalance W i)) \<Longrightarrow> observed_after W n = a"
proof (induction n)
  case 0
  then show ?case by simp
next
  case (Suc n)
  show ?case
  proof (cases "j = n")
    case True
    with Suc.prems show ?thesis by simp
  next
    case False
    with Suc.prems have "j < n" and "isl (getTokenAccountBalance W n)" by simp_all
    with Suc show ?thesis by (auto split: sum.splits)
  qed
qed

lemma observed_after_none:
  "(\<forall>i<n. isl (getTokenAccountBalance W i)) \<Longrightarrow> observed_after W n = 0"
  by (induction n) (auto split: sum.splits)

lemma observed_after_origin:
  "observed_after W n = 0 \<or> (\<exists>j<n. getTokenAccountBalance W j = Inr (observed_after W n))"
proof (induction n)
  case 0
  then show ?case by simp
next
  case (Suc n)
  show ?case
  proof (cases "getTokenAccountBalance W n")
    case (Inl e)
    with Suc show ?thesis by (auto intro: less_SucI)
  next
    case (Inr a)
    then show ?thesis by auto
  qed
qed

lemma ten_attempts: "(10 :: nat) = Suc 9"
  by simp

lemma verify_balance_exhausted:
  assumes "\<forall>k<10. \<not> meets W cfg k"
  shows "fst (verify_balance W cfg ata) =
           (if observed_after W 10 < PAYMENT_AMOUNT cfg
            then Inl (insufficient (observed_after W 10) (PAYMENT_AMOUNT cfg)) else Inr ())
       \<and> balance_polls (snd (verify_balance W cfg ata)) = 10"
  using balance_loop_exhausts [of 0 W 0 cfg ata] assms
  by (simp add: verify_balance_result)

lemma verify_balance_stops:
  assumes "k < 10" and "getTokenAccountBalance W k = Inr a" and "PAYMENT_AMOUNT cfg \<le> a"
    and "\<forall>j<k. \<not> meets W cfg j"
  shows "fst (verify_balance W cfg ata) = Inr () \<and> fst (balance_loop W cfg ata 0 0) = a
       \<and> balance_polls (snd (verify_balance W cfg ata)) = Suc k"
  using balance_loop_stops [of 0 k W a cfg ata 0] assms
  by (simp add: verify_balance_result)

text \<open>
  Claim C4. The balance verifier succeeds only when the balance it observed
  last is at least the required amount, and then some query returned such
  an amount (or nothing was observed and the configured requirement is not
  positive). It stops at the first attempt whose amount meets the
  requirement: when that is attempt \<open>k\<close>, it has made \<open>k + 1\<close> queries. When
  each of the ten attempts leaves the observed balance below the
  requirement, it makes all ten queries and fails with the message
  ``Insufficient USDC. Have: \<open>h\<close>, Need: \<open>n\<close>'', where \<open>h\<close> is the decimal text
  of the observed and \<open>n\<close> that of the required amount; the message carries
  both amounts, as two different pairs of amounts never give the same
  message. It never makes more than ten queries.
\<close>

theorem balance_verifier:
  "(succeeded (fst (verify_balance W cfg ata)) \<longrightarrow>
      PAYMENT_AMOUNT cfg \<le> fst (balance_loop W cfg ata 0 0)
      \<and> ((\<exists>i<10. \<exists>x. getTokenAccountBalance W i = Inr x \<and> PAYMENT_AMOUNT cfg \<le> x)
         \<or> PAYMENT_AMOUNT cfg \<le> 0))
   \<and> (k < 10 \<and> getTokenAccountBalance W k = Inr a \<and> PAYMENT_AMOUNT cfg \<le> a
        \<and> (\<forall>j<k. \<not> meets W cfg j) \<longrightarrow>
      succeeded (fst (verify_balance W cfg ata)) \<and> fst (balance_loop W cfg ata 0 0) = a
      \<and> balance_polls (snd (verify_balance W cfg ata)) = Suc k)
   \<and> ((\<forall>i<10. observed_after W (Suc i) < PAYMENT_AMOUNT cfg) \<longrightarrow>
      fst (verify_balance W cfg ata)
        = Inl (''Insufficient USDC. Have: '' @ js_toString (observed_after W 10)
               @ '', Need: '' @ js_toString (PAYMENT_AMOUNT cfg))
      \<and> balance_polls (snd (verify_balance W cfg ata)) = 10)
   \<and> (''Insufficient USDC. Have: '' @ js_toString h @ '', Need: '' @ js_toString n
        = ''Insufficient USDC. Have: '' @ js_toString h' @ '', Need: '' @ js_toString n'
      \<longrightarrow> h = h' \<and> n = n')
   \<and> balance_polls (snd (verify_balance W cfg ata)) \<le> 10"
proof (intro conjI impI)
  assume ok: "succeeded (fst (verify_balance W cfg ata))"
  then show enough: "PAYMENT_AMOUNT cfg \<le> fst (balance_loop W cfg ata 0 0)"
    by (simp add: verify_balance_result succeeded_def split: if_splits)
  show "(\<exists>i<10. \<exists>x. getTokenAccountBalance W i = Inr x \<and> PAYMENT_AMOUNT cfg \<le> x)
         \<or> PAYMENT_AMOUNT cfg \<le> 0"
  proof (cases "\<exists>i<10. meets W cfg i")
    case True
    then show ?thesis using meets_amount by blast
  next
    case False
    then have none: "\<forall>i<10. \<not> meets W cfg i" by blast
    with enough have le: "PAYMENT_AMOUNT cfg \<le> observed_after W 10"
      using balance_loop_exhausts [of 0 W 0 cfg ata] by simp
    from observed_after_origin [of W 10] show ?thesis
    proof
      assume "observed_after W 10 = 0"
      with le show ?thesis by simp
    next
      assume "\<exists>j<10. getTokenAccountBalance W j = Inr (observed_after W 10)"
      with le show ?thesis by blast
    qed
  qed
next
  assume "k < 10 \<and> getTokenAccountBalance W k = Inr a \<and> PAYMENT_AMOUNT cfg \<le> a
        \<and> (\<forall>j<k. \<not> meets W cfg j)"
  then have "fst (verify_balance W cfg ata) = Inr () \<and> fst (balance_loop W cfg ata 0 0) = a
       \<and> balance_polls (snd (verify_balance W cfg ata)) = Suc k"
    using verify_balance_stops by blast
  then show "succeeded (fst (verify_balance W cfg ata))"
    and "fst (balance_loop W cfg ata 0 0) = a"
    and "balance_polls (snd (verify_balance W cfg ata)) = Suc k"
    by (simp_all add: succeeded_def)
next
  assume below: "\<forall>i<10. observed_after W (Suc i) < PAYMENT_AMOUNT cfg"
  have none: "\<forall>i<10. \<not> meets W cfg i"
  proof (intro allI impI notI)
    fix i assume "i < 10" and "meets W cfg i"
    from meets_amount [OF this(2)] obtain x where
      "getTokenAccountBalance W i = Inr x" "PAYMENT_AMOUNT cfg \<le> x" by blast
    then have "PAYMENT_AMOUNT cfg \<le> observed_after W (Suc i)" by simp
    with below \<open>i < 10\<close> show False by fastforce
  qed
  have "(9 :: nat) < 10" by simp
  with below have "observed_after W (Suc 9) < PAYMENT_AMOUNT cfg" by blast
  then have "observed_after W 10 < PAYMENT_AMOUNT cfg" by (simp only: ten_attempts)
  with verify_balance_exhausted [OF none, of ata]
  show "fst (verify_balance W cfg ata)
        = Inl (''Insufficient USDC. Have: '' @ js_toString (observed_after W 10)
               @ '', Need: '' @ js_toString (PAYMENT_AMOUNT cfg))"
    and "balance_polls (snd (verify_balance W cfg ata)) = 10"
    by (simp_all add: insufficient_def)
next
  assume "''Insufficient USDC. Have: '' @ js_toString h @ '', Need: '' @ js_toString n
        = ''Insufficient USDC. Have: '' @ js_toString h' @ '', Need: '' @ js_toString n'"
  then show "h = h'" and "n = n'"
    using insufficient_text_inj by blast+
next
  show "balance_polls (snd (verify_balance W cfg ata)) \<le> 10"
    using balance_polls_bound [of W cfg ata 0 0] by (simp add: verify_balance_result)
qed

lemma observed_half: "observed_after world_half (Suc i) = 500000"
  by (simp add: world_half_def)

lemma observed_ok: "observed_after world_ok (Suc i) = 1000000"
  by (simp add: world_ok_def)

theorem balance_verifier_witness:
  "getTokenAccountBalance world_third_try 2 = Inr 1000000
   \<and> \<not> meets world_third_try cfg0 0 \<and> \<not> meets world_third_try cfg0 1
   \<and> succeeded (fst (verify_balance world_third_try cfg0 ''ata-of-burner-key''))
   \<and> balance_polls (snd (verify_balance world_third_try cfg0 ''ata-of-burner-key'')) = 3
   \<and> observed_after world_half 10 = 500000 \<and> PAYMENT_AMOUNT cfg0 = 1000000
   \<and> fst (verify_balance world_half cfg0 ''ata-of-burner-key'')
       = Inl ''Insufficient USDC. Have: 500000, Need: 1000000''
   \<and> balance_polls (snd (verify_balance world_half cfg0 ''ata-of-burner-key'')) = 10
   \<and> observed_after world_ok 10 = 1000000 \<and> PAYMENT_AMOUNT cfg_high = 2500000
   \<and> fst (verify_balance world_ok cfg_high ''ata-of-burner-key'')
       = Inl ''Insufficient USDC. Have: 1000000, Need: 2500000''
   \<and> balance_polls (snd (verify_balance world_ok cfg_high ''ata-of-burner-key'')) = 10"
proof -
  have pa: "PAYMENT_AMOUNT cfg0 = 1000000" by (simp add: cfg0_def)
  have ph: "PAYMENT_AMOUNT cfg_high = 2500000" by (simp add: cfg_high_def)
  have third: "getTokenAccountBalance world_third_try 2 = Inr 1000000"
    by (simp add: world_third_try_def)
  have early: "\<forall>j<2. \<not> meets world_third_try cfg0 j"
    by (simp add: meets_def world_third_try_def pa less_Suc_eq eval_nat_numeral)
  have half: "\<forall>i<10. observed_after world_half (Suc i) < PAYMENT_AMOUNT cfg0"
    by (simp only: observed_half pa) simp
  have low: "\<forall>i<10. observed_after world_ok (Suc i) < PAYMENT_AMOUNT cfg_high"
    by (simp only: observed_ok ph) simp
  have h10: "observed_after world_half 10 = 500000"
    by (subst ten_attempts) (rule observed_half)
  have o10: "observed_after world_ok 10 = 1000000"
    by (subst ten_attempts) (rule observed_ok)
  note t = balance_verifier [where ata = "''ata-of-burner-key''" and h = 0 and n = 0
      and h' = 0 and n' = 0]
  from t [where W = world_third_try and cfg = cfg0 and k = 2 and a = 1000000] third early pa
  have a: "succeeded (fst (verify_balance world_third_try cfg0 ''ata-of-burner-key''))
      \<and> balance_polls (snd (verify_balance world_third_try cfg0 ''ata-of-burner-key'')) = 3"
    by simp
  from t [where W = world_half and cfg = cfg0 and k = 0 and a = 0] half
  have b: "fst (verify_balance world_half cfg0 ''ata-of-burner-key'')
        = Inl (''Insufficient USDC. Have: '' @ js_toString (observed_after world_half 10)
               @ '', Need: '' @ js_toString (PAYMENT_AMOUNT cfg0))
      \<and> balance_polls (snd (verify_balance world_half cfg0 ''ata-of-burner-key'')) = 10"
    by blast
  from t [where W = world_ok and cfg = cfg_high and k = 0 and a = 0] low
  have c: "fst (verify_balance world_ok cfg_high ''ata-of-burner-key'')
        = Inl (''Insufficient USDC. Have: '' @ js_toString (observed_after world_ok 10)
               @ '', Need: '' @ js_toString (PAYMENT_AMOUNT cfg_high))
      \<and> balance_polls (snd (verify_balance world_ok cfg_high ''ata-of-burner-key'')) = 10"
    by blast
  have decimal: "js_toString 500000 = ''500000''" "js_toString 1000000 = ''1000000''"
    "js_toString 2500000 = ''2500000''"
    by (simp_all add: js_toString_eval)
  from early have "\<not> meets world_third_try cfg0 0 \<and> \<not> meets world_third_try cfg0 1" by simp
  with third a b c h10 o10 pa ph decimal show ?thesis by simp
qed

text \<open>
  Claim C10. When the verifier fails, the amount in its message is what the
  most recent successful balance query returned: if query \<open>j\<close> returned \<open>a\<close>
  and every later one of the ten raised an error, the message reports \<open>a\<close>,
  although the final attempt observed nothing. If every one of the ten
  queries raised an error the message reports 0; and with a positive
  requirement the verifier does fail then, after ten queries.
\<close>

theorem insufficient_reports_last_observed:
  "(fst (verify_balance W cfg ata) = Inl m \<and> j < 10 \<and> getTokenAccountBalance W j = Inr a
      \<and> (\<forall>i. j < i \<and> i < 10 \<longrightarrow> isl (getTokenAccountBalance W i))
     \<longrightarrow> m = insufficient a (PAYMENT_AMOUNT cfg))
   \<and> (fst (verify_balance W cfg ata) = Inl m \<and> (\<forall>i<10. isl (getTokenAccountBalance W i))
     \<longrightarrow> m = insufficient 0 (PAYMENT_AMOUNT cfg))
   \<and> ((\<forall>i<10. isl (getTokenAccountBalance W i)) \<and> 0 < PAYMENT_AMOUNT cfg
     \<longrightarrow> fst (verify_balance W cfg ata) = Inl (insufficient 0 (PAYMENT_AMOUNT cfg))
         \<and> balance_polls (snd (verify_balance W cfg ata)) = 10)"
proof (intro conjI impI)
  assume h: "fst (verify_balance W cfg ata) = Inl m \<and> j < 10 \<and> getTokenAccountBalance W j = Inr a
      \<and> (\<forall>i. j < i \<and> i < 10 \<longrightarrow> isl (getTokenAccountBalance W i))"
  then have none: "\<forall>k<10. \<not> meets W cfg k" using verify_balance_fails_no_meets by blast
  from h have "observed_after W 10 = a" using observed_after_recent by blast
  with verify_balance_exhausted [OF none, of ata] h
  show "m = insufficient a (PAYMENT_AMOUNT cfg)" by (simp split: if_splits)
next
  assume h: "fst (verify_balance W cfg ata) = Inl m \<and> (\<forall>i<10. isl (getTokenAccountBalance W i))"
  then have none: "\<forall>k<10. \<not> meets W cfg k" using verify_balance_fails_no_meets by blast
  from h have "observed_after W 10 = 0" using observed_after_none by blast
  with verify_balance_exhausted [OF none, of ata] h
  show "m = insufficient 0 (PAYMENT_AMOUNT cfg)" by (simp split: if_splits)
next
  assume h: "(\<forall>i<10. isl (getTokenAccountBalance W i)) \<and> 0 < PAYMENT_AMOUNT cfg"
  then have none: "\<forall>k<10. \<not> meets W cfg k"
    by (auto simp: meets_def split: sum.splits)
  from h have "observed_after W 10 = 0" using observed_after_none by blast
  with verify_balance_exhausted [OF none, of ata] h
  show "fst (verify_balance W cfg ata) = Inl (insufficient 0 (PAYMENT_AMOUNT cfg))"
    and "balance_polls (snd (verify_balance W cfg ata)) = 10"
    by simp_all
qed

theorem insufficient_reports_last_observed_witness:
  "getTokenAccountBalance world_stale 3 = Inr 500000
   \<and> isl (getTokenAccountBalance world_stale 9)
   \<and> fst (verify_balance world_stale cfg0 ''ata-of-burner-key'')
       = Inl ''Insufficient USDC. Have: 500000, Need: 1000000''
   \<and> isl (getTokenAccountBalance world_rpc_down 9)
   \<and> 0 < PAYMENT_AMOUNT cfg0
   \<and> fst (verify_balance world_rpc_down cfg0 ''ata-of-burner-key'')
       = Inl ''Insufficient USDC. Have: 0, Need: 1000000''
   \<and> balance_polls (snd (verify_balance world_rpc_down cfg0 ''ata-of-burner-key'')) = 10"
proof -
  have pa: "PAYMENT_AMOUNT cfg0 = 1000000" by (simp add: cfg0_def)
  have fourth: "getTokenAccountBalance world_stale 3 = Inr 500000"
    by (simp add: world_stale_def)
  have later: "\<forall>i. 3 < i \<and> i < 10 \<longrightarrow> isl (getTokenAccountBalance world_stale i)"
    by (simp add: world_stale_def)
  have none: "\<forall>k<10. \<not> meets world_stale cfg0 k"
    by (simp add: meets_def world_stale_def pa)
  have "observed_after world_stale 10 = 500000"
    using observed_after_recent [of 3 10 world_stale 500000] fourth later by simp
  with verify_balance_exhausted [OF none, of "''ata-of-burner-key''"] pa
  have fails: "fst (verify_balance world_stale cfg0 ''ata-of-burner-key'')
      = Inl (insufficient 500000 1000000)" by simp
  have down: "\<forall>i<10. isl (getTokenAccountBalance world_rpc_down i)"
    by (simp add: world_rpc_down_def)
  from insufficient_reports_last_observed [of world_stale cfg0 "''ata-of-burner-key''"
      "insufficient 500000 1000000" 3 500000] fails fourth later pa
  have a: "insufficient 500000 1000000 = insufficient 500000 1000000" by simp
  from insufficient_reports_last_observed [of world_rpc_down cfg0 "''ata-of-burner-key''"
      "insufficient 0 1000000" 0 0] down pa
  have b: "fst (verify_balance world_rpc_down cfg0 ''ata-of-burner-key'')
        = Inl (insufficient 0 1000000)
      \<and> balance_polls (snd (verify_balance world_rpc_down cfg0 ''ata-of-burner-key'')) = 10"
    by simp
  have msg: "insufficient 500000 1000000 = ''Insufficient USDC. Have: 500000, Need: 1000000''"
    "insufficient 0 1000000 = ''Insufficient USDC. Have: 0, Need: 1000000''"
    by (simp_all add: insufficient_def js_toString_eval)
  have "isl (getTokenAccountBalance world_stale 9)
      \<and> isl (getTokenAccountBalance world_rpc_down 9)"
    by (simp add: world_stale_def world_rpc_down_def)
  with fourth fails b pa msg show ?thesis by simp
qed

subsection \<open>The confirmation loop\<close>

lemma js_includes_sublist: "js_includes s sub \<longleftrightarrow> sublist sub s"
  by (induction s) (auto simp: sublist_Cons_right)

text \<open>\<open>js_includes\<close> is the substring test.\<close>

lemma js_includes_iff: "js_includes s sub \<longleftrightarrow> (\<exists>ps ss. s = ps @ sub @ ss)"
  by (simp add: js_includes_sublist sublist_def)

lemma own_error_is_terminal:
  "js_includes ''Funding transaction failed on-chain'' ''failed on-chain''"
  by simp

lemma funding_attempt_Inl:
  "funding_attempt (Inl m) = (if js_includes m ''failed on-chain'' then Throw m else Continue)"
  by (simp add: funding_attempt_def funding_try_def)

lemma funding_attempt_Break_iff:
  "funding_attempt r = Break \<longleftrightarrow> (\<exists>v. r = Inr (Some v) \<and> settled v \<and> \<not> has_err v)"
  by (auto simp: funding_attempt_def funding_try_def settled_def
      split: sum.splits option.splits if_splits)

lemma funding_attempt_settled_err:
  "settled v \<Longrightarrow> has_err v \<Longrightarrow>
   funding_attempt (Inr (Some v)) = Throw ''Funding transaction failed on-chain''"
  by (auto simp: funding_attempt_def funding_try_def settled_def)

lemma funding_attempt_Continue_settled:
  "funding_attempt (Inr (Some v)) = Continue \<Longrightarrow> \<not> settled v"
  by (auto simp: funding_attempt_def funding_try_def settled_def split: if_splits)

text \<open>While the attempts continue, the loop moves on and polls once for each.\<close>

lemma funding_loop_skip:
  "attempt \<le> k \<Longrightarrow> k \<le> 30 \<Longrightarrow>
   (\<forall>j. attempt \<le> j \<and> j < k \<longrightarrow> funding_attempt (getSignatureStatus W j) = Continue) \<Longrightarrow>
   fst (funding_loop W sg attempt) = fst (funding_loop W sg k)
   \<and> status_polls (snd (funding_loop W sg attempt))
       = (k - attempt) + status_polls (snd (funding_loop W sg k))"
proof (induction W sg attempt rule: funding_loop.induct)
  case (1 W sg attempt)
  show ?case
  proof (cases "attempt = k")
    case True
    then show ?thesis by simp
  next
    case False
    with "1.prems" have less: "attempt < k" and lt30: "attempt < 30"
      and cont: "funding_attempt (getSignatureStatus W attempt) = Continue"
      by simp_all
    have "fst (funding_loop W sg (Suc attempt)) = fst (funding_loop W sg k)
        \<and> status_polls (snd (funding_loop W sg (Suc attempt)))
            = (k - Suc attempt) + status_polls (snd (funding_loop W sg k))"
      using "1.IH" [OF lt30 cont] "1.prems" less by simp
    then show ?thesis
      using lt30 cont less by (auto simp: funding_loop_continue split: prod.splits)
  qed
qed

text \<open>The loop ends with \<open>confirmed\<close> set only by breaking at some attempt.\<close>

lemma funding_loop_confirmed:
  "fst (funding_loop W sg attempt) = Inr True \<Longrightarrow>
   \<exists>k. attempt \<le> k \<and> k < 30 \<and> funding_attempt (getSignatureStatus W k) = Break
     \<and> (\<forall>j. attempt \<le> j \<and> j < k \<longrightarrow> funding_attempt (getSignatureStatus W j) = Continue)
     \<and> status_polls (snd (funding_loop W sg attempt)) = Suc k - attempt"
proof (induction W sg attempt rule: funding_loop.induct)
  case (1 W sg attempt)
  show ?case
  proof (cases "attempt < 30")
    case False
    with "1.prems" show ?thesis by (simp add: funding_loop_done)
  next
    case True
    show ?thesis
    proof (cases "funding_attempt (getSignatureStatus W attempt)")
      case Break
      with True have "status_polls (snd (funding_loop W sg attempt)) = Suc attempt - attempt"
        by (simp add: funding_loop_break)
      with True Break show ?thesis by (intro exI [of _ attempt]) auto
    next
      case (Throw m)
      with True "1.prems" show ?thesis by (simp add: funding_loop_throw)
    next
      case Continue
      with True "1.prems" have "fst (funding_loop W sg (Suc attempt)) = Inr True"
        by (auto simp: funding_loop_continue split: prod.splits)
      from "1.IH" [OF True Continue this] obtain k where
        k: "Suc attempt \<le> k" "k < 30" "funding_attempt (getSignatureStatus W k) = Break"
          "\<forall>j. Suc attempt \<le> j \<and> j < k \<longrightarrow> funding_attempt (getSignatureStatus W j) = Continue"
          "status_polls (snd (funding_loop W sg (Suc attempt))) = Suc k - Suc attempt"
        by blast
      have "\<forall>j. attempt \<le> j \<and> j < k \<longrightarrow> funding_attempt (getSignatureStatus W j) = Continue"
        using k(4) Continue by (metis Suc_leI le_neq_implies_less)
      moreover have "status_polls (snd (funding_loop W sg attempt)) = Suc k - attempt"
        using k(1,5) True Continue by (auto simp: funding_loop_continue split: prod.splits)
      ultimately show ?thesis using k(1,2,3) by (intro exI [of _ k]) auto
    qed
  qed
qed

text \<open>The loop reads the world through the outcome of each attempt only.\<close>

lemma funding_loop_cong:
  "(\<forall>j. funding_attempt (getSignatureStatus W j) = funding_attempt (getSignatureStatus W' j)) \<Longrightarrow>
   funding_loop W sg attempt = funding_loop W' sg attempt"
proof (induction W sg attempt rule: funding_loop.induct)
  case (1 W sg attempt)
  show ?case
  proof (cases "attempt < 30")
    case False
    then show ?thesis by (simp add: funding_loop_done)
  next
    case True
    from "1.prems" have same:
      "funding_attempt (getSignatureStatus W' attempt) = funding_attempt (getSignatureStatus W attempt)"
      by simp
    show ?thesis
    proof (cases "funding_attempt (getSignatureStatus W attempt)")
      case Break
      with True same show ?thesis by (simp add: funding_loop_break)
    next
      case (Throw m)
      with True same show ?thesis by (simp add: funding_loop_throw)
    next
      case Continue
      with "1.IH" [OF True Continue "1.prems"] True same show ?thesis
        by (simp add: funding_loop_continue)
    qed
  qed
qed

lemma wait_for_funding_result:
  "wait_for_funding W sg =
     (case fst (funding_loop W sg 0) of
        Inl m \<Rightarrow> Inl m
      | Inr confirmed \<Rightarrow>
          (if confirmed then Inr ()
           else Inl ''Funding transaction did not confirm within 30 seconds''),
      snd (funding_loop W sg 0))"
  by (simp add: wait_for_funding_def split: prod.splits sum.splits)

lemma wait_reaches:
  assumes "k < 30" and "\<forall>j<k. funding_attempt (getSignatureStatus W j) = Continue"
  shows "fst (funding_loop W sg 0) = fst (funding_loop W sg k)
       \<and> status_polls (snd (funding_loop W sg 0)) = k + status_polls (snd (funding_loop W sg k))"
  using funding_loop_skip [of 0 k W sg] assms by simp

lemma wait_throws:
  assumes "k < 30" and "\<forall>j<k. funding_attempt (getSignatureStatus W j) = Continue"
    and "funding_attempt (getSignatureStatus W k) = Throw m"
  shows "fst (wait_for_funding W sg) = Inl m \<and> status_polls (snd (wait_for_funding W sg)) = Suc k"
  using wait_reaches [OF assms(1,2), of sg] assms(1,3)
  by (simp add: wait_for_funding_result funding_loop_throw)

lemma wait_times_out:
  assumes "\<forall>j<30. funding_attempt (getSignatureStatus W j) = Continue"
  shows "fst (wait_for_funding W sg) = Inl ''Funding transaction did not confirm within 30 seconds''
       \<and> status_polls (snd (wait_for_funding W sg)) = 30"
  using funding_loop_skip [of 0 30 W sg] assms
  by (simp add: wait_for_funding_result funding_loop_done)

lemma wait_succeeds:
  assumes "fst (wait_for_funding W sg) = Inr ()"
  shows "\<exists>k<30. funding_attempt (getSignatureStatus W k) = Break
     \<and> (\<forall>j<k. funding_attempt (getSignatureStatus W j) = Continue)
     \<and> status_polls (snd (wait_for_funding W sg)) = Suc k"
proof -
  from assms have "fst (funding_loop W sg 0) = Inr True"
    by (simp add: wait_for_funding_result split: sum.splits if_splits)
  from funding_loop_confirmed [OF this] show ?thesis
    by (auto simp: wait_for_funding_result)
qed

lemma funding_loop_polls_once:
  "attempt < 30 \<Longrightarrow> 0 < status_polls (snd (funding_loop W sg attempt))"
  by (subst funding_loop.simps) (auto split: loop_step.splits prod.splits)

text \<open>
  Claim C5, read poll by poll: the waiter decides at one poll, on the status
  that poll returns, and a status \<^emph>\<open>carries an error\<close> when the handler's
  test \<open>status.value.err\<close> finds one (\<open>has_err\<close>). The waiter returns success
  only at a poll whose status is confirmed or finalized and carries no
  error, and does so at once: no poll of the run, up to and including that
  one, saw a confirmed or finalized status with an error. So at no poll,
  whatever the confirmation level of its status, does a status that carries
  an error give success. When the poll of attempt \<open>k\<close> sees a confirmed or
  finalized status that carries an error, the waiter fails with ``Funding
  transaction failed on-chain'' and has made exactly \<open>k + 1\<close> polls. And when
  the status carries an error at every poll, whatever its confirmation
  level, the waiter does not return success. (An error seen below the
  level \<open>confirmed\<close> does not end the wait: the loop polls on, and the run is
  decided by the first confirmed or finalized status; see
  \<open>processed_error_is_not_final\<close> below.)
\<close>

theorem waiter_never_confirms_failed_transaction:
  "(fst (wait_for_funding W sg) = Inr () \<longrightarrow>
      (\<exists>n<30. \<exists>u. getSignatureStatus W n = Inr (Some u) \<and> settled u \<and> \<not> has_err u
         \<and> status_polls (snd (wait_for_funding W sg)) = Suc n
         \<and> (\<forall>j\<le>n. \<forall>x. getSignatureStatus W j = Inr (Some x) \<and> settled x \<longrightarrow> \<not> has_err x)))
   \<and> (k < 30 \<and> (\<forall>j<k. funding_attempt (getSignatureStatus W j) = Continue)
        \<and> getSignatureStatus W k = Inr (Some v) \<and> settled v \<and> has_err v \<longrightarrow>
      fst (wait_for_funding W sg) = Inl ''Funding transaction failed on-chain''
      \<and> status_polls (snd (wait_for_funding W sg)) = Suc k)
   \<and> ((\<forall>i<30. \<exists>x. getSignatureStatus W i = Inr (Some x) \<and> has_err x) \<longrightarrow>
      fst (wait_for_funding W sg) \<noteq> Inr ())"
proof (intro conjI impI)
  assume "fst (wait_for_funding W sg) = Inr ()"
  from wait_succeeds [OF this] obtain n where
    n: "n < 30" "funding_attempt (getSignatureStatus W n) = Break"
      "\<forall>j<n. funding_attempt (getSignatureStatus W j) = Continue"
      "status_polls (snd (wait_for_funding W sg)) = Suc n"
    by blast
  from n(2) obtain u where u: "getSignatureStatus W n = Inr (Some u)" "settled u" "\<not> has_err u"
    using funding_attempt_Break_iff by blast
  have "\<forall>j\<le>n. \<forall>x. getSignatureStatus W j = Inr (Some x) \<and> settled x \<longrightarrow> \<not> has_err x"
  proof (intro allI impI)
    fix j x
    assume "j \<le> n" and x: "getSignatureStatus W j = Inr (Some x) \<and> settled x"
    show "\<not> has_err x"
    proof (cases "j = n")
      case True
      with x u show ?thesis by simp
    next
      case False
      with \<open>j \<le> n\<close> n(3) have "funding_attempt (getSignatureStatus W j) = Continue" by simp
      with x show ?thesis using funding_attempt_Continue_settled by auto
    qed
  qed
  with n(1,4) u
  show "\<exists>n<30. \<exists>u. getSignatureStatus W n = Inr (Some u) \<and> settled u \<and> \<not> has_err u
         \<and> status_polls (snd (wait_for_funding W sg)) = Suc n
         \<and> (\<forall>j\<le>n. \<forall>x. getSignatureStatus W j = Inr (Some x) \<and> settled x \<longrightarrow> \<not> has_err x)"
    by blast
next
  assume h: "k < 30 \<and> (\<forall>j<k. funding_attempt (getSignatureStatus W j) = Continue)
        \<and> getSignatureStatus W k = Inr (Some v) \<and> settled v \<and> has_err v"
  then have "funding_attempt (getSignatureStatus W k) = Throw ''Funding transaction failed on-chain''"
    using funding_attempt_settled_err by simp
  with h wait_throws
  show "fst (wait_for_funding W sg) = Inl ''Funding transaction failed on-chain''"
    and "status_polls (snd (wait_for_funding W sg)) = Suc k"
    by blast+
next
  assume all: "\<forall>i<30. \<exists>x. getSignatureStatus W i = Inr (Some x) \<and> has_err x"
  show "fst (wait_for_funding W sg) \<noteq> Inr ()"
  proof
    assume "fst (wait_for_funding W sg) = Inr ()"
    from wait_succeeds [OF this] obtain n where
      "n < 30" "funding_attempt (getSignatureStatus W n) = Break" by blast
    with all show False using funding_attempt_Break_iff by fastforce
  qed
qed

lemma failed_tx_first: "funding_attempt (getSignatureStatus world_failed_tx 0) = Continue"
  by (simp add: world_failed_tx_def world_ok_def funding_attempt_def funding_try_def)

theorem waiter_never_confirms_failed_transaction_witness:
  "fst (wait_for_funding world_ok ''funding-signature'') = Inr ()
   \<and> status_polls (snd (wait_for_funding world_ok ''funding-signature'')) = 1
   \<and> getSignatureStatus world_failed_tx 1
       = Inr (Some \<lparr> confirmationStatus = Some Finalized, err = Some ''InstructionError'' \<rparr>)
   \<and> fst (wait_for_funding world_failed_tx ''funding-signature'')
       = Inl ''Funding transaction failed on-chain''
   \<and> status_polls (snd (wait_for_funding world_failed_tx ''funding-signature'')) = 2
   \<and> fst (wait_for_funding world_processed_err ''funding-signature'') \<noteq> Inr ()"
proof -
  let ?v = "\<lparr> confirmationStatus = Some Finalized, err = Some ''InstructionError'' \<rparr>"
  have ok: "fst (wait_for_funding world_ok ''funding-signature'') = Inr ()"
    by (simp add: wait_for_funding_result funding_loop_break funding_attempt_def funding_try_def
        world_ok_def has_err_def)
  have polls_ok: "status_polls (snd (wait_for_funding world_ok ''funding-signature'')) = 1"
    by (simp add: wait_for_funding_result funding_loop_break funding_attempt_def funding_try_def
        world_ok_def has_err_def)
  have second: "getSignatureStatus world_failed_tx 1 = Inr (Some ?v)"
    by (simp add: world_failed_tx_def world_ok_def)
  have before: "\<forall>j<1. funding_attempt (getSignatureStatus world_failed_tx j) = Continue"
    using failed_tx_first by simp
  have bad: "settled ?v \<and> err ?v \<noteq> None"
    by (simp add: settled_def)
  have always: "\<forall>i<30. \<exists>x. getSignatureStatus world_processed_err i = Inr (Some x) \<and> has_err x"
    by (simp add: world_processed_err_def world_ok_def has_err_def)
  note t = waiter_never_confirms_failed_transaction
  from t [of world_failed_tx "''funding-signature''" 1 ?v] second before bad
  have a: "fst (wait_for_funding world_failed_tx ''funding-signature'')
        = Inl ''Funding transaction failed on-chain''
      \<and> status_polls (snd (wait_for_funding world_failed_tx ''funding-signature'')) = 2"
    by (simp add: has_err_def)
  from t [of world_processed_err "''funding-signature''" 0 ?v] always
  have b: "fst (wait_for_funding world_processed_err ''funding-signature'') \<noteq> Inr ()"
    by blast
  from ok polls_ok second a b show ?thesis by simp
qed

text \<open>
  What the poll-by-poll reading leaves open: a status that carries an error
  at the level \<open>processed\<close> is treated like one not yet confirmed, and when
  the next poll sees the transaction confirmed without error the waiter
  returns success. Likewise an \<open>err\<close> that is the empty string is no error
  for the handler's test.
\<close>

lemma processed_error_is_not_final:
  "getSignatureStatus world_fork 0
     = Inr (Some \<lparr> confirmationStatus = Some Processed, err = Some ''AccountInUse'' \<rparr>)
   \<and> fst (wait_for_funding world_fork ''funding-signature'') = Inr ()
   \<and> status_polls (snd (wait_for_funding world_fork ''funding-signature'')) = 2"
  by (simp add: wait_for_funding_result funding_loop_continue funding_loop_break
      funding_attempt_def funding_try_def world_fork_def world_ok_def has_err_def)

lemma empty_err_is_no_error:
  "funding_attempt (Inr (Some \<lparr> confirmationStatus = Some Finalized, err = Some [] \<rparr>)) = Break"
  by (simp add: funding_attempt_def funding_try_def has_err_def)

text \<open>
  Claim C9. In the confirmation waiter, what happens to an exception of a
  status query is decided by one test on its message: when the message
  contains \<open>failed on-chain\<close> the exception is thrown on and the wait ends at
  that attempt, after \<open>k + 1\<close> polls; otherwise it is swallowed and the
  attempt counts like one that saw no status yet, so that polling goes on
  with the next attempt (and a wait in which every query throws such an
  error makes all 30 polls and ends with the timeout).
\<close>

theorem query_error_terminal_by_substring:
  "funding_attempt (Inl m) = (if js_includes m ''failed on-chain'' then Throw m else Continue)
   \<and> (k < 30 \<and> (\<forall>j<k. funding_attempt (getSignatureStatus W j) = Continue)
        \<and> getSignatureStatus W k = Inl m \<and> js_includes m ''failed on-chain'' \<longrightarrow>
      fst (wait_for_funding W sg) = Inl m
      \<and> status_polls (snd (wait_for_funding W sg)) = Suc k)
   \<and> (getSignatureStatus W k = Inl m \<and> \<not> js_includes m ''failed on-chain'' \<longrightarrow>
      wait_for_funding W sg
        = wait_for_funding (W \<lparr> getSignatureStatus := (getSignatureStatus W) (k := Inr None) \<rparr>) sg)
   \<and> (k < 29 \<and> (\<forall>j<k. funding_attempt (getSignatureStatus W j) = Continue)
        \<and> getSignatureStatus W k = Inl m \<and> \<not> js_includes m ''failed on-chain'' \<longrightarrow>
      Suc k < status_polls (snd (wait_for_funding W sg)))
   \<and> ((\<forall>i<30. \<exists>e. getSignatureStatus W i = Inl e \<and> \<not> js_includes e ''failed on-chain'') \<longrightarrow>
      fst (wait_for_funding W sg) = Inl ''Funding transaction did not confirm within 30 seconds''
      \<and> status_polls (snd (wait_for_funding W sg)) = 30)"
proof (intro conjI impI)
  show "funding_attempt (Inl m) = (if js_includes m ''failed on-chain'' then Throw m else Continue)"
    by (rule funding_attempt_Inl)
next
  assume h: "k < 30 \<and> (\<forall>j<k. funding_attempt (getSignatureStatus W j) = Continue)
        \<and> getSignatureStatus W k = Inl m \<and> js_includes m ''failed on-chain''"
  then have "funding_attempt (getSignatureStatus W k) = Throw m"
    by (simp add: funding_attempt_Inl)
  with h wait_throws
  show "fst (wait_for_funding W sg) = Inl m"
    and "status_polls (snd (wait_for_funding W sg)) = Suc k"
    by blast+
next
  assume h: "getSignatureStatus W k = Inl m \<and> \<not> js_includes m ''failed on-chain''"
  let ?W = "W \<lparr> getSignatureStatus := (getSignatureStatus W) (k := Inr None) \<rparr>"
  have "\<forall>j. funding_attempt (getSignatureStatus W j) = funding_attempt (getSignatureStatus ?W j)"
    using h by (simp add: funding_attempt_Inl) (simp add: funding_attempt_def funding_try_def)
  then have "funding_loop W sg 0 = funding_loop ?W sg 0" by (rule funding_loop_cong)
  then show "wait_for_funding W sg = wait_for_funding ?W sg"
    by (simp add: wait_for_funding_def)
next
  assume h: "k < 29 \<and> (\<forall>j<k. funding_attempt (getSignatureStatus W j) = Continue)
        \<and> getSignatureStatus W k = Inl m \<and> \<not> js_includes m ''failed on-chain''"
  then have "\<forall>j<Suc k. funding_attempt (getSignatureStatus W j) = Continue"
    by (simp add: funding_attempt_Inl less_Suc_eq)
  moreover from h have "Suc k < 30" by simp
  ultimately have "status_polls (snd (funding_loop W sg 0))
      = Suc k + status_polls (snd (funding_loop W sg (Suc k)))"
    using wait_reaches by blast
  moreover have "0 < status_polls (snd (funding_loop W sg (Suc k)))"
    using \<open>Suc k < 30\<close> by (rule funding_loop_polls_once)
  ultimately show "Suc k < status_polls (snd (wait_for_funding W sg))"
    by (simp add: wait_for_funding_result)
next
  assume "\<forall>i<30. \<exists>e. getSignatureStatus W i = Inl e \<and> \<not> js_includes e ''failed on-chain''"
  then have "\<forall>j<30. funding_attempt (getSignatureStatus W j) = Continue"
    by (auto simp: funding_attempt_Inl)
  with wait_times_out
  show "fst (wait_for_funding W sg) = Inl ''Funding transaction did not confirm within 30 seconds''"
    and "status_polls (snd (wait_for_funding W sg)) = 30"
    by blast+
qed

theorem query_error_terminal_by_substring_witness:
  "getSignatureStatus world_terminal_rpc 1
     = Inl ''simulation failed on-chain: blockhash not found''
   \<and> js_includes ''simulation failed on-chain: blockhash not found'' ''failed on-chain''
   \<and> fst (wait_for_funding world_terminal_rpc ''funding-signature'')
       = Inl ''simulation failed on-chain: blockhash not found''
   \<and> status_polls (snd (wait_for_funding world_terminal_rpc ''funding-signature'')) = 2
   \<and> getSignatureStatus world_flaky_rpc 0 = Inl ''socket hang up''
   \<and> \<not> js_includes ''socket hang up'' ''failed on-chain''
   \<and> 1 < status_polls (snd (wait_for_funding world_flaky_rpc ''funding-signature''))
   \<and> fst (wait_for_funding world_silent_rpc ''funding-signature'')
       = Inl ''Funding transaction did not confirm within 30 seconds''
   \<and> status_polls (snd (wait_for_funding world_silent_rpc ''funding-signature'')) = 30"
proof -
  let ?m = "''simulation failed on-chain: blockhash not found''"
  have second: "getSignatureStatus world_terminal_rpc 1 = Inl ?m"
    by (simp add: world_terminal_rpc_def world_ok_def)
  have before: "\<forall>j<1. funding_attempt (getSignatureStatus world_terminal_rpc j) = Continue"
    by (simp add: world_terminal_rpc_def world_ok_def funding_attempt_def funding_try_def)
  have terminal: "js_includes ?m ''failed on-chain''"
    by simp
  have first: "getSignatureStatus world_flaky_rpc 0 = Inl ''socket hang up''"
    by (simp add: world_flaky_rpc_def world_ok_def)
  have transient: "\<not> js_includes ''socket hang up'' ''failed on-chain''"
    by simp
  have silent: "\<forall>i<30. \<exists>e. getSignatureStatus world_silent_rpc i = Inl e
      \<and> \<not> js_includes e ''failed on-chain''"
    by (simp add: world_silent_rpc_def world_ok_def)
  note t = query_error_terminal_by_substring
  from t [of ?m 1 world_terminal_rpc "''funding-signature''"] second before terminal
  have a: "fst (wait_for_funding world_terminal_rpc ''funding-signature'') = Inl ?m
      \<and> status_polls (snd (wait_for_funding world_terminal_rpc ''funding-signature'')) = 2"
    by simp
  from t [of "''socket hang up''" 0 world_flaky_rpc "''funding-signature''"]
  have "(0 :: nat) < 29
      \<and> (\<forall>j<0. funding_attempt (getSignatureStatus world_flaky_rpc j) = Continue)
      \<and> getSignatureStatus world_flaky_rpc 0 = Inl ''socket hang up''
      \<and> \<not> js_includes ''socket hang up'' ''failed on-chain''
      \<longrightarrow> Suc 0 < status_polls (snd (wait_for_funding world_flaky_rpc ''funding-signature''))"
    by blast
  with first transient
  have b: "1 < status_polls (snd (wait_for_funding world_flaky_rpc ''funding-signature''))"
    by simp
  from t [of "''socket hang up''" 0 world_silent_rpc "''funding-signature''"] silent
  have c: "fst (wait_for_funding world_silent_rpc ''funding-signature'')
        = Inl ''Funding transaction did not confirm within 30 seconds''
      \<and> status_polls (snd (wait_for_funding world_silent_rpc ''funding-signature'')) = 30"
    by blast
  from second terminal first transient a b c show ?thesis by simp
qed

subsection \<open>The base64 text\<close>

lemma b64_alphabet_distinct: "distinct b64_alphabet"
  by (simp add: b64_alphabet_def)

lemma b64_alphabet_length: "length b64_alphabet = 64"
  by (simp add: b64_alphabet_def)

lemma b64_alphabet_others:
  "CHR ''-'' \<notin> set b64_alphabet" "CHR ''_'' \<notin> set b64_alphabet" "CHR ''='' \<notin> set b64_alphabet"
  by (simp_all add: b64_alphabet_def)

lemma b64_char_in: "n < 64 \<Longrightarrow> b64_char n \<in> set b64_alphabet"
  by (simp add: b64_char_def b64_alphabet_length)

lemma unbase64_b64_char: "n < 64 \<Longrightarrow> unbase64 (b64_char n) = Some n"
proof -
  assume n: "n < 64"
  from b64_char_in [OF n] b64_alphabet_others
  have "b64_char n \<noteq> CHR ''-''" and "b64_char n \<noteq> CHR ''_''" by auto
  then show ?thesis
    using n by (simp add: unbase64_def b64_char_def index_of_nth b64_alphabet_distinct
        b64_alphabet_length)
qed

lemma unbase64_pad: "unbase64 CHR ''='' = None"
  by (simp add: unbase64_def b64_alphabet_def)

lemma b64_sextets_char: "n < 64 \<Longrightarrow> b64_sextets (b64_char n # cs) = n # b64_sextets cs"
  by (simp add: unbase64_b64_char)

lemma b64_sextets_pad: "b64_sextets (CHR ''='' # cs) = []"
  by (simp add: unbase64_pad)

lemma byte_bound: "unat (x :: byte) < 256"
  using unsigned_less [of x, where 'a = nat] by simp

text \<open>The four sextets of three bytes are below 64.\<close>

lemma sextet_first: "(x :: nat) < 256 \<Longrightarrow> x div 4 < 64"
  by simp

lemma sextet_second: "(y :: nat) < 256 \<Longrightarrow> x mod 4 * 16 + y div 16 < 64"
proof -
  assume "y < 256"
  then have "y div 16 < 16" by simp
  moreover have "x mod 4 * 16 \<le> 48" by simp
  ultimately show ?thesis by linarith
qed

lemma sextet_third: "(z :: nat) < 256 \<Longrightarrow> y mod 16 * 4 + z div 64 < 64"
proof -
  assume "z < 256"
  then have "z div 64 < 4" by simp
  moreover have "y mod 16 * 4 \<le> 60" by simp
  ultimately show ?thesis by linarith
qed

lemma sextet_last: "(z :: nat) mod 64 < 64"
  by simp

lemmas sextet_bounds = sextet_first sextet_second sextet_third sextet_last

text \<open>Regrouping the sextets gives the bytes back.\<close>

lemma regroup_first: "(y :: nat) < 256 \<Longrightarrow> x div 4 * 4 + (x mod 4 * 16 + y div 16) div 16 = x"
  by simp

lemma regroup_second:
  "(y :: nat) < 256 \<Longrightarrow> z < 256 \<Longrightarrow>
   (x mod 4 * 16 + y div 16) mod 16 * 16 + (y mod 16 * 4 + z div 64) div 4 = y"
  by simp

lemma regroup_third: "(z :: nat) < 256 \<Longrightarrow> (y mod 16 * 4 + z div 64) mod 4 * 64 + z mod 64 = z"
  by simp

lemmas regroup = regroup_first regroup_second regroup_third

lemma b64_bytes_quad:
  assumes "unat x < 256" "unat y < 256" "unat z < 256"
  shows "b64_bytes (unat x div 4 # (unat x mod 4 * 16 + unat y div 16)
           # (unat y mod 16 * 4 + unat z div 64) # unat z mod 64 # vs)
         = x # y # (z :: byte) # b64_bytes vs"
  using assms by (simp add: regroup)

lemma b64_bytes_triple:
  assumes "unat x < 256" "unat y < 256"
  shows "b64_bytes [unat x div 4, unat x mod 4 * 16 + unat y div 16, unat y mod 16 * 4]
         = [x, y :: byte]"
  using assms regroup_first [of "unat y" "unat x"] regroup_second [of "unat y" 0 "unat x"]
  by simp

lemma b64_bytes_pair: "b64_bytes [unat x div 4, unat x mod 4 * 16] = [x :: byte]"
  using regroup_first [of 0 "unat x"] by simp

text \<open>Decoding the base64 text of a byte sequence gives the sequence back.\<close>

lemma buffer_from_base64_encode: "buffer_from_base64 (b64_encode bs) = bs"
proof (induction bs rule: b64_encode.induct)
  case (1 x y z bs)
  have b: "unat x < 256" "unat y < 256" "unat z < 256" by (rule byte_bound)+
  have "b64_sextets (b64_encode (x # y # z # bs))
      = unat x div 4 # (unat x mod 4 * 16 + unat y div 16)
        # (unat y mod 16 * 4 + unat z div 64) # unat z mod 64 # b64_sextets (b64_encode bs)"
    using b by (simp add: b64_sextets_char sextet_bounds del: b64_sextets.simps)
  with 1 b64_bytes_quad [OF b] show ?case
    by (simp add: buffer_from_base64_def)
next
  case (2 x y)
  have b: "unat x < 256" "unat y < 256" by (rule byte_bound)+
  have "y mod 16 * 4 < 64" for y :: nat
    using sextet_third [of 0 y] by simp
  then have "b64_sextets (b64_encode [x, y])
      = [unat x div 4, unat x mod 4 * 16 + unat y div 16, unat y mod 16 * 4]"
    using b by (simp add: b64_sextets_char b64_sextets_pad sextet_bounds del: b64_sextets.simps)
  with b64_bytes_triple [OF b] show ?case
    by (simp add: buffer_from_base64_def)
next
  case (3 x)
  have b: "unat x < 256" by (rule byte_bound)
  have "x mod 4 * 16 < 64" for x :: nat
    using sextet_second [of 0 x] by simp
  then have "b64_sextets (b64_encode [x]) = [unat x div 4, unat x mod 4 * 16]"
    using b by (simp add: b64_sextets_char b64_sextets_pad sextet_bounds del: b64_sextets.simps)
  with b64_bytes_pair [of x] show ?case
    by (simp add: buffer_from_base64_def)
next
  case 4
  show ?case by (simp add: buffer_from_base64_def)
qed

subsection \<open>The array and the object\<close>

lemma buffer_from_array_uint: "buffer_from_array (map uint bs) = bs"
  by (simp add: buffer_from_array_def map_idI)

lemma index_entries:
  "List.map_filter (\<lambda>(k, v). case k of Index i \<Rightarrow> Some (i, v) | Name n \<Rightarrow> None)
     (map (\<lambda>(i, b). (Index i, uint b)) (enumerate n bs))
   = map (\<lambda>(i, b). (i, uint b)) (enumerate n (bs :: byte list))"
  by (induction bs arbitrary: n) simp_all

lemma name_entries:
  "List.map_filter (\<lambda>(k, v). case k of Index i \<Rightarrow> None | Name n \<Rightarrow> Some v)
     (map (\<lambda>(i, b). (Index i, uint b)) (enumerate n bs)) = []"
  by (induction bs arbitrary: n) simp_all

lemma enumerate_keys: "map fst (map (\<lambda>(i, b). (i, f b)) (enumerate n bs)) = [n..<n + length bs]"
  by (induction bs arbitrary: n) (simp_all add: upt_rec)

lemma enumerate_values: "map snd (map (\<lambda>(i, b). (i, f b)) (enumerate n bs)) = map f bs"
  by (induction bs arbitrary: n) simp_all

lemma object_values_as_object:
  "object_values (map (\<lambda>(i, b). (Index i, uint b)) (enumerate 0 (bs :: byte list))) = map uint bs"
proof -
  have "sorted (map fst (map (\<lambda>(i, b). (i, uint b)) (enumerate 0 bs)))"
    by (simp only: enumerate_keys) simp
  then have "sort_key fst (map (\<lambda>(i, b). (i, uint b)) (enumerate 0 bs))
      = map (\<lambda>(i, b). (i, uint b)) (enumerate 0 bs)"
    by (rule sort_key_id_if_sorted)
  then show ?thesis
    by (simp only: object_values_def index_entries name_entries enumerate_values) simp
qed

lemma b64_encode_nonempty: "bs \<noteq> [] \<Longrightarrow> b64_encode bs \<noteq> []"
  by (cases bs rule: b64_encode.cases) simp_all

text \<open>
  Claim C7, as the code has it. The normalisation maps the three encodings
  of a byte sequence (the array of its values, its base64 text, the object
  that maps each position to its byte) to that byte sequence. For a sequence
  that is not empty the handler then submits these bytes to the ledger in
  all three cases, with the same reply. (The base64 text of the empty
  sequence is the empty string, which the handler's presence check turns
  away before the normalisation.)
\<close>

theorem three_encodings_one_buffer:
  "tx_buffer (as_array bs) = bs \<and> tx_buffer (as_base64 bs) = bs \<and> tx_buffer (as_object bs) = bs
   \<and> (bs \<noteq> [] \<longrightarrow>
        snd (send_transaction sendRaw (as_array bs)) = [SendRawTransaction bs]
        \<and> send_transaction sendRaw (as_base64 bs) = send_transaction sendRaw (as_array bs)
        \<and> send_transaction sendRaw (as_object bs) = send_transaction sendRaw (as_array bs))"
proof -
  have a: "tx_buffer (as_array bs) = bs"
    by (simp add: tx_buffer_def as_array_def buffer_from_array_uint)
  have b: "tx_buffer (as_base64 bs) = bs"
    by (simp add: tx_buffer_def as_base64_def buffer_from_base64_encode)
  have c: "tx_buffer (as_object bs) = bs"
    by (simp add: tx_buffer_def as_object_def object_values_as_object buffer_from_array_uint)
  have truthy: "js_truthy (as_array bs)" "js_truthy (as_object bs)"
    "bs \<noteq> [] \<Longrightarrow> js_truthy (as_base64 bs)"
    by (simp_all add: as_array_def as_object_def as_base64_def b64_encode_nonempty)
  show ?thesis
    using a b c truthy
    by (auto simp: send_transaction_def Let_def split: sum.splits)
qed

theorem three_encodings_one_buffer_witness:
  "[1, 2, 3, 255, 0] \<noteq> ([] :: byte list)
   \<and> as_array [1, 2, 3, 255, 0] = JArr [1, 2, 3, 255, 0]
   \<and> as_base64 [1, 2, 3, 255, 0] = JStr ''AQID/wA=''
   \<and> as_object [1, 2, 3, 255, 0]
       = JObj [(Index 0, 1), (Index 1, 2), (Index 2, 3), (Index 3, 255), (Index 4, 0)]
   \<and> snd (send_transaction ledger0 (JArr [1, 2, 3, 255, 0]))
       = [SendRawTransaction [1, 2, 3, 255, 0]]
   \<and> snd (send_transaction ledger0 (JStr ''AQID/wA='')) = [SendRawTransaction [1, 2, 3, 255, 0]]
   \<and> snd (send_transaction ledger0
        (JObj [(Index 0, 1), (Index 1, 2), (Index 2, 3), (Index 3, 255), (Index 4, 0)]))
       = [SendRawTransaction [1, 2, 3, 255, 0]]"
proof -
  have arr: "as_array [1, 2, 3, 255, 0] = JArr [1, 2, 3, 255, 0]"
    by (simp add: as_array_def)
  have b64: "as_base64 [1, 2, 3, 255, 0] = JStr ''AQID/wA=''"
    by (simp add: as_base64_def b64_char_def b64_alphabet_def)
  have obj: "as_object [1, 2, 3, 255, 0]
       = JObj [(Index 0, 1), (Index 1, 2), (Index 2, 3), (Index 3, 255), (Index 4, 0)]"
    by (simp add: as_object_def enumerate_eq_zip upt_rec)
  from three_encodings_one_buffer [of "[1, 2, 3, 255, 0]" ledger0]
  show ?thesis
    unfolding arr b64 obj by simp
qed

text \<open>
  Claim C7 as the specification words it, for every byte sequence, fails
  for the empty one: sent as an array it is submitted to the ledger, sent as
  base64 text the request is refused and nothing is submitted.
\<close>

theorem empty_encodings_counterexample:
  "as_array [] = JArr [] \<and> as_base64 [] = JStr []
   \<and> snd (send_transaction ledger0 (as_array [])) = [SendRawTransaction []]
   \<and> send_transaction ledger0 (as_base64 [])
       = ((400, SendFailed ''signedTransaction required''), [])"
  by (simp add: as_array_def as_base64_def send_transaction_def tx_buffer_def
      buffer_from_array_def ledger0_def)

end
